theory Spec2Isabelle
  imports Main
begin

section \<open>The completion hook: useCompletion\<close>

text \<open>
  The hook keeps the completion text in the SWR cache under the key \<open>[api, completionId]\<close>
  and runs one request per \<open>trigger\<close>. The request is an async function; its suspension
  points are the \<open>await\<close> of \<open>fetch\<close>, of \<open>onResponse\<close> and of every
  \<open>reader.read()\<close>. What the transport and the consumer do at those points is the
  environment of the model; what the hook does between them is the code.
\<close>

subsection \<open>Data\<close>

text \<open>A JavaScript error value: the handler only looks at \<open>err.name\<close>.\<close>

datatype err = Err (name: string) (message: string)

text \<open>
  What can happen while a \<open>reader.read()\<close> is pending: the consumer calls \<open>stop()\<close>
  (the read stays pending), or the read settles with a chunk, with \<open>done\<close>, or with a
  rejection.
\<close>

datatype 'c step = Stop | Chunk 'c | Done | Rejected err

text \<open>The response: \<open>res.ok\<close> and \<open>res.body\<close> (\<open>None\<close> is a null body).\<close>

record 'c response =
  ok :: bool
  body :: "'c step list option"

datatype 'c fetched = Resolves "'c response" | Rejects err

text \<open>
  The environment of one request: whether \<open>stop()\<close> is called while \<open>fetch\<close> is
  pending, how \<open>fetch\<close> settles, and whether \<open>stop()\<close> is called while
  \<open>onResponse\<close> is awaited.
\<close>

record 'c env =
  stop_in_fetch :: bool
  fetch_outcome :: "'c fetched"
  stop_in_onResponse :: bool

text \<open>The effects of a request that the claims talk about, in the order they happen.\<close>

datatype effect =
    NewAbortController nat
  | Mutate string
  | Fetch string string
  | OnResponse
  | Read bool
  | ReaderCancel
  | OnFinish string string

text \<open>
  The options of one hook instance after destructuring. \<open>hookId\<close> is the value of
  \<open>useId()\<close>; \<open>onResponse\<close> returns the error it throws, if any;
  \<open>decodeAIStreamChunk\<close> is imported from \<open>../shared/utils\<close> and taken as given.
\<close>

record 'c hook =
  api :: string
  id_opt :: "string option"
  hookId :: string
  initialCompletion :: string
  onResponse :: "('c response \<Rightarrow> err option) option"
  onFinish :: bool
  decodeAIStreamChunk :: "'c \<Rightarrow> string"

text \<open>
  The state outside the request: the SWR cache, the React state \<open>abortController\<close>
  (a reference to a controller, or null), the set of controllers whose signal has been
  aborted, the next fresh reference, and the state of the SWR mutation.
\<close>

record hstate =
  cache :: "string \<times> string \<rightharpoonup> string"
  abortController :: "nat option"
  aborted :: "nat set"
  fresh :: nat
  error :: "err option"
  isMutating :: bool
  log :: "effect list"

text \<open>How an async function ends: it returns, it throws, or it never settles.\<close>

datatype 'a ending = Returns 'a | Throws err | Pending

subsection \<open>The hook\<close>

text \<open>\<open>const completionId = id || hookId\<close>: an absent and an empty \<open>id\<close> are both falsy.\<close>

definition completionId :: "'c hook \<Rightarrow> string" where
  "completionId h =
     (case id_opt h of None \<Rightarrow> hookId h | Some i \<Rightarrow> if i = [] then hookId h else i)"

definition key :: "'c hook \<Rightarrow> string \<times> string" where
  "key h = (api h, completionId h)"

text \<open>
  \<open>useSWR([api, completionId], null, { fallbackData: initialCompletion })\<close>: the data
  is the cached value, and the fallback of this instance while the cache has none.
\<close>

definition completion :: "'c hook \<Rightarrow> hstate \<Rightarrow> string" where
  "completion h st =
     (case cache st (key h) of None \<Rightarrow> initialCompletion h | Some v \<Rightarrow> v)"

definition mutate :: "'c hook \<Rightarrow> string \<Rightarrow> hstate \<Rightarrow> hstate" where
  "mutate h v st = st\<lparr>cache := (cache st)(key h \<mapsto> v), log := log st @ [Mutate v]\<rparr>"

definition setCompletion :: "'c hook \<Rightarrow> string \<Rightarrow> hstate \<Rightarrow> hstate" where
  "setCompletion h v st = mutate h v st"

definition setAbortController :: "nat option \<Rightarrow> hstate \<Rightarrow> hstate" where
  "setAbortController c st = st\<lparr>abortController := c\<rparr>"

text \<open>\<open>stop\<close>: abort the controller held in the React state, then null the state.\<close>

definition stop :: "hstate \<Rightarrow> hstate" where
  "stop st =
     (case abortController st of
        None \<Rightarrow> st
      | Some c \<Rightarrow> setAbortController None (st\<lparr>aborted := insert c (aborted st)\<rparr>))"

definition stop_if :: "bool \<Rightarrow> hstate \<Rightarrow> hstate" where
  "stop_if b st = (if b then stop st else st)"

definition emit :: "effect \<Rightarrow> hstate \<Rightarrow> hstate" where
  "emit e st = st\<lparr>log := log st @ [e]\<rparr>"

text \<open>
  The read loop. \<open>ac\<close> is the local \<open>const abortController\<close> of the request, which
  is what the test \<open>abortController === null\<close> inside the loop reads; \<open>read_loop\<close>
  issues \<open>reader.read()\<close> (logged with the state of the signal at that moment) and
  \<open>await_read\<close> waits for it to settle.
\<close>

fun read_loop :: "'c hook \<Rightarrow> nat option \<Rightarrow> string \<Rightarrow> 'c step list \<Rightarrow> hstate
                    \<Rightarrow> string ending \<times> hstate"
and await_read :: "'c hook \<Rightarrow> nat option \<Rightarrow> string \<Rightarrow> 'c step list \<Rightarrow> hstate
                    \<Rightarrow> string ending \<times> hstate" where
  "read_loop h ac result es st =
     await_read h ac result es
       (emit (Read (case ac of None \<Rightarrow> False | Some c \<Rightarrow> c \<in> aborted st)) st)"
| "await_read h ac result [] st = (Pending, st)"
| "await_read h ac result (Stop # es) st = await_read h ac result es (stop st)"
| "await_read h ac result (Done # es) st = (Returns result, st)"
| "await_read h ac result (Rejected e # es) st = (Throws e, st)"
| "await_read h ac result (Chunk v # es) st =
     (let result' = result @ decodeAIStreamChunk h v;
          st' = mutate h result' st
      in if ac = None then (Returns result', emit ReaderCancel st')
         else read_loop h ac result' es st')"

text \<open>
  The synchronous start of a request: a new controller is stored in the React state, the
  completion is emptied, and \<open>fetch\<close> is called.
\<close>

definition start_request :: "'c hook \<Rightarrow> string \<Rightarrow> hstate \<Rightarrow> hstate" where
  "start_request h prompt st =
     (let c = fresh st;
          st1 = setAbortController (Some c) (emit (NewAbortController c) (st\<lparr>fresh := Suc c\<rparr>));
          st2 = mutate h [] st1
      in emit (Fetch (api h) prompt) st2)"

text \<open>The \<open>try\<close> block from the two checks of the response on.\<close>

definition read_body :: "'c hook \<Rightarrow> string \<Rightarrow> nat \<Rightarrow> 'c response \<Rightarrow> hstate
                          \<Rightarrow> string ending \<times> hstate" where
  "read_body h prompt c res st =
     (if \<not> ok res then
        (Throws (Err ''Error'' ''Failed to fetch the completion response.''), st)
      else
        (case body res of
           None \<Rightarrow> (Throws (Err ''Error'' ''The response body is empty.''), st)
         | Some es \<Rightarrow>
             (case read_loop h (Some c) [] es st of
                (Returns result, st') \<Rightarrow>
                  (Returns result,
                   setAbortController None
                     (if onFinish h then emit (OnFinish prompt result) st' else st'))
              | (Throws e, st') \<Rightarrow> (Throws e, st')
              | (Pending, st') \<Rightarrow> (Pending, st'))))"

text \<open>The body of the \<open>try\<close> block.\<close>

definition try_block :: "'c hook \<Rightarrow> string \<Rightarrow> 'c env \<Rightarrow> hstate \<Rightarrow> string ending \<times> hstate" where
  "try_block h prompt env st =
     (let c = fresh st;
          st3 = stop_if (stop_in_fetch env) (start_request h prompt st)
      in (case fetch_outcome env of
            Rejects e \<Rightarrow> (Throws e, st3)
          | Resolves res \<Rightarrow>
              (case onResponse h of
                 None \<Rightarrow> read_body h prompt c res st3
               | Some f \<Rightarrow>
                   (let st4 = stop_if (stop_in_onResponse env) (emit OnResponse st3)
                    in (case f res of
                          Some e \<Rightarrow> (Throws e, st4)
                        | None \<Rightarrow> read_body h prompt c res st4)))))"

text \<open>
  The fetcher passed to \<open>useSWRMutation\<close>: the \<open>try\<close> block and its \<open>catch\<close>,
  which turns an error named \<open>AbortError\<close> into the return value null.
\<close>

definition fetcher :: "'c hook \<Rightarrow> string \<Rightarrow> 'c env \<Rightarrow> hstate
                        \<Rightarrow> string option ending \<times> hstate" where
  "fetcher h prompt env st =
     (case try_block h prompt env st of
        (Returns result, st') \<Rightarrow> (Returns (Some result), st')
      | (Throws e, st') \<Rightarrow>
          if name e = ''AbortError'' then (Returns None, setAbortController None st')
          else (Throws e, st')
      | (Pending, st') \<Rightarrow> (Pending, st'))"

text \<open>
  \<open>trigger\<close> of \<open>useSWRMutation\<close> with \<open>populateCache: false\<close>: the mutation is
  marked as running, the fetcher runs once, and its error, if it throws, becomes the
  \<open>error\<close> of the hook; the returned value is not written to the cache.
\<close>

definition trigger :: "'c hook \<Rightarrow> string \<Rightarrow> 'c env \<Rightarrow> hstate
                        \<Rightarrow> string option ending \<times> hstate" where
  "trigger h prompt env st =
     (case fetcher h prompt env (st\<lparr>isMutating := True\<rparr>) of
        (Returns r, st') \<Rightarrow> (Returns r, st'\<lparr>error := None, isMutating := False\<rparr>)
      | (Throws e, st') \<Rightarrow> (Throws e, st'\<lparr>error := Some e, isMutating := False\<rparr>)
      | (Pending, st') \<Rightarrow> (Pending, st'))"

definition complete :: "'c hook \<Rightarrow> string \<Rightarrow> 'c env \<Rightarrow> hstate
                         \<Rightarrow> string option ending \<times> hstate" where
  "complete h prompt env st = trigger h prompt env st"

text \<open>\<open>handleSubmit\<close>: nothing is sent for an empty input (\<open>None\<close>).\<close>

definition handleSubmit :: "'c hook \<Rightarrow> string \<Rightarrow> 'c env \<Rightarrow> hstate
                             \<Rightarrow> (string option ending \<times> hstate) option" where
  "handleSubmit h input env st =
     (if input = [] then None else Some (trigger h input env st))"

text \<open>
  The states of the consumer contract, read off the way the request ended: null is
  returned for an abort, the text for a natural end, and an error is thrown otherwise.
\<close>

datatype session = Streaming | Completed | Errored | Aborted

fun session_of :: "string option ending \<Rightarrow> session" where
  "session_of (Returns None) = Aborted"
| "session_of (Returns (Some r)) = Completed"
| "session_of (Throws e) = Errored"
| "session_of Pending = Streaming"

text \<open>The chunks among the steps of a body, in order.\<close>

fun chunks_of :: "'c step list \<Rightarrow> 'c list" where
  "chunks_of [] = []"
| "chunks_of (Chunk v # es) = v # chunks_of es"
| "chunks_of (_ # es) = chunks_of es"

text \<open>The \<open>onResponse\<close> callback, if there is one, returns without throwing.\<close>

definition quiet_onResponse :: "'c hook \<Rightarrow> 'c response \<Rightarrow> bool" where
  "quiet_onResponse h res = (case onResponse h of None \<Rightarrow> True | Some f \<Rightarrow> f res = None)"

text \<open>The test of the \<open>catch\<close> block: \<open>err.name === 'AbortError'\<close>.\<close>

definition abort_error :: "err \<Rightarrow> bool" where
  "abort_error e = (name e = ''AbortError'')"

text \<open>
  A request fails at the transport level when \<open>fetch\<close> rejects with an error other
  than an abort, or resolves with a response that is not ok or has no body.
\<close>

definition transport_failure :: "'c hook \<Rightarrow> 'c env \<Rightarrow> bool" where
  "transport_failure h env =
     (case fetch_outcome env of
        Rejects e \<Rightarrow> \<not> abort_error e
      | Resolves res \<Rightarrow> (\<not> ok res \<or> body res = None) \<and> quiet_onResponse h res)"

text \<open>The effects of a failed request after the call of \<open>fetch\<close>.\<close>

definition failure_effects :: "'c hook \<Rightarrow> 'c env \<Rightarrow> effect list" where
  "failure_effects h env =
     (case fetch_outcome env of
        Rejects e \<Rightarrow> []
      | Resolves res \<Rightarrow> (case onResponse h of None \<Rightarrow> [] | Some f \<Rightarrow> [OnResponse]))"

text \<open>
  The chunks a request reads from a body: those that arrive before the body ends or a
  read is rejected.
\<close>

fun read_chunks :: "'c step list \<Rightarrow> 'c list" where
  "read_chunks [] = []"
| "read_chunks (Stop # es) = read_chunks es"
| "read_chunks (Chunk v # es) = v # read_chunks es"
| "read_chunks (Done # es) = []"
| "read_chunks (Rejected e # es) = []"

text \<open>
  The chunks one request reads in its environment: none unless \<open>fetch\<close> resolves,
  \<open>onResponse\<close> returns, the response is ok and has a body.
\<close>

definition delivered :: "'c hook \<Rightarrow> 'c env \<Rightarrow> 'c list" where
  "delivered h env =
     (case fetch_outcome env of
        Rejects e \<Rightarrow> []
      | Resolves res \<Rightarrow>
          if quiet_onResponse h res \<and> ok res
          then (case body res of None \<Rightarrow> [] | Some es \<Rightarrow> read_chunks es)
          else [])"

subsection \<open>Concrete instances\<close>

text \<open>
  A hook on the default endpoint whose chunks are already text, an idle state with an
  empty cache, and the environment of a successful response with a given body.
\<close>

definition demo_hook :: "string option \<Rightarrow> string \<Rightarrow> string \<Rightarrow> string hook" where
  "demo_hook i hid ini =
     \<lparr>api = ''/api/completion'', id_opt = i, hookId = hid, initialCompletion = ini,
      onResponse = None, onFinish = True, decodeAIStreamChunk = (\<lambda>s. s)\<rparr>"

definition idle :: hstate where
  "idle = \<lparr>cache = Map.empty, abortController = None, aborted = {}, fresh = 0,
           error = None, isMutating = False, log = []\<rparr>"

definition streamed :: "string step list \<Rightarrow> string env" where
  "streamed es =
     \<lparr>stop_in_fetch = False, fetch_outcome = Resolves \<lparr>ok = True, body = Some es\<rparr>,
      stop_in_onResponse = False\<rparr>"

section \<open>The tagged stream protocol\<close>

text \<open>
  The stream helpers (\<open>createStreamDataTransformer\<close>, \<open>experimental_StreamData\<close>,
  \<open>StreamingTextResponse\<close>) are exercised by the tests but are not among the source
  files; this section models them from the specification.
\<close>

subsection \<open>JSON payloads\<close>

text \<open>Modelled from the spec: a data event is an arbitrary JSON-serializable value and
  the payload of a protocol line is always valid JSON (sections 3 and 6); the encoder that
  serializes the payloads is not among the sources. A number is an exact decimal, a
  mantissa \<open>m\<close> and an exponent \<open>e\<close> for \<open>m\<close> times ten to the \<open>e\<close>, which is what
  a JSON number text denotes; strings are strings of bytes; an object is the list of its
  members in order.\<close>

datatype json =
    JNull
  | JBool bool
  | JNum int int
  | JStr string
  | JArr "json list"
  | JObj "(string \<times> json) list"

text \<open>Modelled from the spec: the hexadecimal digit of a four-digit unicode escape
  in a JSON string; the serializer of the payloads is not among the sources.\<close>

definition hex_digit :: "nat \<Rightarrow> char" where
  "hex_digit d = (if d < 10 then char_of (48 + d) else char_of (87 + d))"

text \<open>Modelled from the spec: the JSON escape of one character of a fragment (section
  6, "JSON-string-encoded fragment"); the serializer is not among the sources. The quote,
  the backslash and the control characters are escaped, so that no raw newline is left.\<close>

definition escape_char :: "char \<Rightarrow> string" where
  "escape_char c =
     (if c = CHR 0x22 then [CHR 0x5C, CHR 0x22]
      else if c = CHR 0x5C then [CHR 0x5C, CHR 0x5C]
      else if c = CHR 0x08 then [CHR 0x5C, CHR ''b'']
      else if c = CHR 0x0C then [CHR 0x5C, CHR ''f'']
      else if c = CHR 0x0A then [CHR 0x5C, CHR ''n'']
      else if c = CHR 0x0D then [CHR 0x5C, CHR ''r'']
      else if c = CHR 0x09 then [CHR 0x5C, CHR ''t'']
      else if (of_char c :: nat) < 32 then
        [CHR 0x5C, CHR ''u'', CHR ''0'', CHR ''0'',
         hex_digit (of_char c div 16), hex_digit (of_char c mod 16)]
      else [c])"

text \<open>Modelled from the spec: the JSON string of a text (section 6); the serializer is
  not among the sources.\<close>

definition quote :: "string \<Rightarrow> string" where
  "quote s = CHR 0x22 # concat (map escape_char s) @ [CHR 0x22]"

text \<open>Modelled from the spec: the decimal digits of a number in a JSON payload; the
  serializer is not among the sources.\<close>

fun show_nat :: "nat \<Rightarrow> string" where
  "show_nat n = (if n < 10 then [char_of (48 + n)] else show_nat (n div 10) @ [char_of (48 + n mod 10)])"

declare show_nat.simps [simp del]

text \<open>Modelled from the spec: an integer in a JSON payload, with its sign; the
  serializer is not among the sources.\<close>

definition show_int :: "int \<Rightarrow> string" where
  "show_int i = (if i < 0 then CHR ''-'' # show_nat (nat (- i)) else show_nat (nat i))"

text \<open>Modelled from the spec: the exponent part of a number in a JSON payload, left
  out when the exponent is zero; the serializer is not among the sources.\<close>

definition exponent :: "int \<Rightarrow> string" where
  "exponent e = (if e = 0 then [] else CHR ''e'' # show_int e)"

text \<open>Modelled from the spec: the elements of a JSON array or object, separated by
  commas; the serializer is not among the sources.\<close>

fun commas :: "string list \<Rightarrow> string" where
  "commas [] = []"
| "commas [x] = x"
| "commas (x # y # zs) = x @ CHR '','' # commas (y # zs)"

text \<open>Modelled from the spec: the JSON text of a payload value (section 3, "payload is
  always valid JSON"), in the compact form without white space; the serializer is not among
  the sources.\<close>

fun stringify :: "json \<Rightarrow> string" where
  "stringify JNull = ''null''"
| "stringify (JBool b) = (if b then ''true'' else ''false'')"
| "stringify (JNum m e) = show_int m @ exponent e"
| "stringify (JStr s) = quote s"
| "stringify (JArr vs) = CHR ''['' # commas (map stringify vs) @ [CHR '']'']"
| "stringify (JObj ms) =
     CHR ''{'' # commas (map (\<lambda>(k, v). quote k @ CHR '':'' # stringify v) ms) @ [CHR ''}'']"

text \<open>Modelled from the spec: JSON white space, which the parser of a payload skips
  between tokens (section 4.5, "parses each line's tag and JSON payload"); the parser is not
  among the sources.\<close>

definition is_ws :: "char \<Rightarrow> bool" where
  "is_ws c = (c = CHR '' '' \<or> c = CHR 0x09 \<or> c = CHR 0x0A \<or> c = CHR 0x0D)"

definition skip_ws :: "string \<Rightarrow> string" where
  "skip_ws s = dropWhile is_ws s"

text \<open>Modelled from the spec: the value of a hexadecimal digit and of the four digits
  of a unicode escape; the parser of the payloads is not among the sources.\<close>

definition hex_val :: "char \<Rightarrow> nat option" where
  "hex_val c =
     (let n = (of_char c :: nat) in
      if 48 \<le> n \<and> n \<le> 57 then Some (n - 48)
      else if 97 \<le> n \<and> n \<le> 102 then Some (n - 87)
      else if 65 \<le> n \<and> n \<le> 70 then Some (n - 55)
      else None)"

definition hex4 :: "char \<Rightarrow> char \<Rightarrow> char \<Rightarrow> char \<Rightarrow> nat option" where
  "hex4 a b c d =
     (case (hex_val a, hex_val b, hex_val c, hex_val d) of
        (Some w, Some x, Some y, Some z) \<Rightarrow> Some (((w * 16 + x) * 16 + y) * 16 + z)
      | _ \<Rightarrow> None)"

text \<open>Modelled from the spec: the character a one-letter JSON escape stands for; the
  parser is not among the sources.\<close>

definition unescape :: "char \<Rightarrow> char option" where
  "unescape e =
     (if e = CHR 0x22 then Some (CHR 0x22)
      else if e = CHR 0x5C then Some (CHR 0x5C)
      else if e = CHR ''/'' then Some (CHR ''/'')
      else if e = CHR ''b'' then Some (CHR 0x08)
      else if e = CHR ''f'' then Some (CHR 0x0C)
      else if e = CHR ''n'' then Some (CHR 0x0A)
      else if e = CHR ''r'' then Some (CHR 0x0D)
      else if e = CHR ''t'' then Some (CHR 0x09)
      else None)"

text \<open>Modelled from the spec: one more character in front of a parsed string; the
  parser is not among the sources.\<close>

definition consc :: "char \<Rightarrow> (string \<times> string) option \<Rightarrow> (string \<times> string) option" where
  "consc c r = (case r of None \<Rightarrow> None | Some (s, rest) \<Rightarrow> Some (c # s, rest))"

text \<open>Modelled from the spec: the parser of a JSON string after its opening quote
  (section 4.5): it returns the text and the input after the closing quote; the parser is
  not among the sources. A raw control character is refused, and so is an escape of a
  character beyond one byte, which this model of strings cannot hold.\<close>

fun unquote :: "string \<Rightarrow> (string \<times> string) option" where
  "unquote [] = None"
| "unquote (c # cs) =
     (if c = CHR 0x22 then Some ([], cs)
      else if c = CHR 0x5C then
        (case cs of
           [] \<Rightarrow> None
         | e # r \<Rightarrow>
             if e = CHR ''u'' then
               (case r of
                  a # b # x # y # r' \<Rightarrow>
                    (case hex4 a b x y of
                       None \<Rightarrow> None
                     | Some n \<Rightarrow> if n < 256 then consc (char_of n) (unquote r') else None)
                | _ \<Rightarrow> None)
             else
               (case unescape e of
                  None \<Rightarrow> None
                | Some ch \<Rightarrow> consc ch (unquote r)))
      else if (of_char c :: nat) < 32 then None
      else consc c (unquote cs))"

text \<open>Modelled from the spec: the digits of a JSON number and their value; the parser
  is not among the sources.\<close>

definition is_digit :: "char \<Rightarrow> bool" where
  "is_digit c = (48 \<le> (of_char c :: nat) \<and> (of_char c :: nat) \<le> 57)"

definition read_nat :: "string \<Rightarrow> nat" where
  "read_nat ds = foldl (\<lambda>a c. 10 * a + (of_char c - 48)) 0 ds"

text \<open>Modelled from the spec: the integer part of a JSON number (section 4.5): an
  optional minus sign and the digits, without a leading zero as JSON requires; it returns
  the sign, the digits and the rest of the input. The parser is not among the sources.\<close>

definition parse_int_part :: "string \<Rightarrow> (bool \<times> string \<times> string) option" where
  "parse_int_part s =
     (let neg = (s \<noteq> [] \<and> hd s = CHR ''-'');
          s1 = (if neg then tl s else s);
          ds = takeWhile is_digit s1;
          r = dropWhile is_digit s1
      in if ds = [] then None
         else if hd ds = CHR ''0'' \<and> 1 < length ds then None
         else Some (neg, ds, r))"

text \<open>Modelled from the spec: the optional fraction of a JSON number (section 4.5): a
  point and at least one digit; it returns the digits of the fraction and the rest of the
  input. The parser is not among the sources.\<close>

definition parse_frac :: "string \<Rightarrow> (string \<times> string) option" where
  "parse_frac s =
     (if s \<noteq> [] \<and> hd s = CHR ''.'' then
        (let fs = takeWhile is_digit (tl s)
         in if fs = [] then None else Some (fs, dropWhile is_digit (tl s)))
      else Some ([], s))"

text \<open>Modelled from the spec: the optional exponent of a JSON number (section 4.5): the
  letter e in either case, an optional sign and at least one digit; it returns the exponent
  and the rest of the input. The parser is not among the sources.\<close>

definition parse_exp :: "string \<Rightarrow> (int \<times> string) option" where
  "parse_exp s =
     (if s \<noteq> [] \<and> (hd s = CHR ''e'' \<or> hd s = CHR ''E'') then
        (let r = tl s;
             neg = (r \<noteq> [] \<and> hd r = CHR ''-'');
             r1 = (if r \<noteq> [] \<and> (hd r = CHR ''-'' \<or> hd r = CHR ''+'') then tl r else r);
             xs = takeWhile is_digit r1
         in if xs = [] then None
            else Some (if neg then - int (read_nat xs) else int (read_nat xs),
                       dropWhile is_digit r1))
      else Some (0, s))"

text \<open>Modelled from the spec: the parser of a JSON number (section 4.5), with its fraction
  and its exponent; the parser is not among the sources. The digits of the integer part and
  of the fraction are the mantissa, and each digit of the fraction lowers the exponent by
  one.\<close>

definition parse_number :: "string \<Rightarrow> (json \<times> string) option" where
  "parse_number s =
     (case parse_int_part s of
        None \<Rightarrow> None
      | Some (neg, ds, r) \<Rightarrow>
          (case parse_frac r of
             None \<Rightarrow> None
           | Some (fs, r2) \<Rightarrow>
               (case parse_exp r2 of
                  None \<Rightarrow> None
                | Some (x, r3) \<Rightarrow>
                    Some (JNum (if neg then - int (read_nat (ds @ fs)) else int (read_nat (ds @ fs)))
                               (x - int (length fs)), r3))))"

text \<open>Modelled from the spec: the rest of a JSON keyword (\<open>null\<close>,
  \<open>true\<close>, \<open>false\<close>) after its first letter; the parser is not among
  the sources.\<close>

definition literal :: "string \<Rightarrow> json \<Rightarrow> string \<Rightarrow> (json \<times> string) option" where
  "literal w v s = (if take (length w) s = w then Some (v, drop (length w) s) else None)"

text \<open>Modelled from the spec: the parser of a JSON value, of the elements of an array
  and of the members of an object (section 4.5); the parser is not among the sources. It
  reads one value and returns the rest of the input. The fuel bounds the depth and the
  number of elements; the length of the input is always enough.\<close>

fun parse_value :: "nat \<Rightarrow> string \<Rightarrow> (json \<times> string) option"
and parse_elems :: "nat \<Rightarrow> string \<Rightarrow> (json list \<times> string) option"
and parse_members :: "nat \<Rightarrow> string \<Rightarrow> ((string \<times> json) list \<times> string) option" where
  "parse_value 0 s = None"
| "parse_value (Suc n) s =
     (case skip_ws s of
        [] \<Rightarrow> None
      | c # r \<Rightarrow>
          if c = CHR ''n'' then literal ''ull'' JNull r
          else if c = CHR ''t'' then literal ''rue'' (JBool True) r
          else if c = CHR ''f'' then literal ''alse'' (JBool False) r
          else if c = CHR 0x22 then
            (case unquote r of None \<Rightarrow> None | Some (str, r') \<Rightarrow> Some (JStr str, r'))
          else if c = CHR ''['' then
            (case skip_ws r of
               [] \<Rightarrow> None
             | d # r' \<Rightarrow>
                 if d = CHR '']'' then Some (JArr [], r')
                 else (case parse_elems n r of
                         None \<Rightarrow> None
                       | Some (vs, r'') \<Rightarrow> Some (JArr vs, r'')))
          else if c = CHR ''{'' then
            (case skip_ws r of
               [] \<Rightarrow> None
             | d # r' \<Rightarrow>
                 if d = CHR ''}'' then Some (JObj [], r')
                 else (case parse_members n r of
                         None \<Rightarrow> None
                       | Some (ms, r'') \<Rightarrow> Some (JObj ms, r'')))
          else parse_number (c # r))"
| "parse_elems 0 s = None"
| "parse_elems (Suc n) s =
     (case parse_value n s of
        None \<Rightarrow> None
      | Some (v, r) \<Rightarrow>
          (case skip_ws r of
             [] \<Rightarrow> None
           | c # r' \<Rightarrow>
               if c = CHR '']'' then Some ([v], r')
               else if c = CHR '','' then
                 (case parse_elems n r' of
                    None \<Rightarrow> None
                  | Some (vs, r'') \<Rightarrow> Some (v # vs, r''))
               else None))"
| "parse_members 0 s = None"
| "parse_members (Suc n) s =
     (case skip_ws s of
        [] \<Rightarrow> None
      | q # r \<Rightarrow>
          if q \<noteq> CHR 0x22 then None
          else
            (case unquote r of
               None \<Rightarrow> None
             | Some (k, r1) \<Rightarrow>
                 (case skip_ws r1 of
                    [] \<Rightarrow> None
                  | c # r2 \<Rightarrow>
                      if c \<noteq> CHR '':'' then None
                      else
                        (case parse_value n r2 of
                           None \<Rightarrow> None
                         | Some (v, r3) \<Rightarrow>
                             (case skip_ws r3 of
                                [] \<Rightarrow> None
                              | d # r4 \<Rightarrow>
                                  if d = CHR ''}'' then Some ([(k, v)], r4)
                                  else if d = CHR '','' then
                                    (case parse_members n r4 of
                                       None \<Rightarrow> None
                                     | Some (ms, r5) \<Rightarrow> Some ((k, v) # ms, r5))
                                  else None)))))"

text \<open>Modelled from the spec: the parser of a whole payload (section 4.5, "non-JSON
  payload" is a decode failure): one value and nothing but white space after it; the parser
  is not among the sources.\<close>

definition parse_json :: "string \<Rightarrow> json option" where
  "parse_json s =
     (case parse_value (length s) s of
        None \<Rightarrow> None
      | Some (v, r) \<Rightarrow> if skip_ws r = [] then Some v else None)"

subsection \<open>Protocol lines\<close>

text \<open>Modelled from the spec: the units of the protocol (sections 3 and 4.5): a text
  fragment or a batch of data events; the encoder and the decoder are not among the sources.\<close>

datatype item = TextItem string | DataItem "json list"

text \<open>Modelled from the spec: the text line of the wire protocol (section 6):
  \<open>0:\<close>, the JSON string of the fragment and a newline; the encoder is not among
  the sources.\<close>

definition text_line :: "string \<Rightarrow> string" where
  "text_line s = ''0:'' @ stringify (JStr s) @ [CHR 0x0A]"

text \<open>Modelled from the spec: the data line of the wire protocol (section 6):
  \<open>2:\<close>, the JSON array of the batch and a newline; the encoder is not among the
  sources.\<close>

definition data_line :: "json list \<Rightarrow> string" where
  "data_line vs = ''2:'' @ stringify (JArr vs) @ [CHR 0x0A]"

text \<open>Modelled from the spec: the line of an item, and the byte stream of a sequence
  of items (section 3: one self-terminating line per unit); the encoder is not among the
  sources.\<close>

fun encode_item :: "item \<Rightarrow> string" where
  "encode_item (TextItem s) = text_line s"
| "encode_item (DataItem vs) = data_line vs"

definition encode_stream :: "item list \<Rightarrow> string" where
  "encode_stream items = concat (map encode_item items)"

text \<open>Modelled from the spec: the failures of the decoder (section 4.5: a malformed
  line, an unknown tag, a payload that is not JSON of the expected kind); the decoder is not
  among the sources.\<close>

datatype decode_error = MalformedLine | UnknownTag | BadPayload

text \<open>Modelled from the spec: the decoder of one line (section 4.5): the tag, a colon
  and the JSON payload, a string for tag 0 and an array for tag 2; no other tag is defined
  (section 6). The decoder is not among the sources.\<close>

definition decode_line :: "string \<Rightarrow> decode_error + item" where
  "decode_line l =
     (case l of
        t # c # payload \<Rightarrow>
          if c \<noteq> CHR '':'' then Inl MalformedLine
          else if t = CHR ''0'' then
            (case parse_json payload of
               Some (JStr s) \<Rightarrow> Inr (TextItem s)
             | _ \<Rightarrow> Inl BadPayload)
          else if t = CHR ''2'' then
            (case parse_json payload of
               Some (JArr vs) \<Rightarrow> Inr (DataItem vs)
             | _ \<Rightarrow> Inl BadPayload)
          else Inl UnknownTag
      | _ \<Rightarrow> Inl MalformedLine)"

text \<open>Modelled from the spec: the splitting of the bytes into lines with a buffer for
  the partial line (sections 3 and 4.1); it returns the complete lines and the remainder.
  The decoder is not among the sources.\<close>

fun split_lines :: "string \<Rightarrow> string \<Rightarrow> string list \<times> string" where
  "split_lines buf [] = ([], buf)"
| "split_lines buf (c # cs) =
     (if c = CHR 0x0A then (case split_lines [] cs of (ls, r) \<Rightarrow> (buf # ls, r))
      else split_lines (buf @ [c]) cs)"

text \<open>Modelled from the spec: the decoding of the lines in order (section 4.5): a line
  that fails ends the decoding with its error, and the items decoded before it are kept
  (section 7). The decoder is not among the sources.\<close>

fun decode_lines :: "string list \<Rightarrow> item list \<times> decode_error option" where
  "decode_lines [] = ([], None)"
| "decode_lines (l # ls) =
     (case decode_line l of
        Inl e \<Rightarrow> ([], Some e)
      | Inr it \<Rightarrow> (case decode_lines ls of (its, r) \<Rightarrow> (it # its, r)))"

text \<open>Modelled from the spec: the protocol decoder (section 4.5), which is not among
  the sources. A remainder without a newline at the end of the input is decoded if it is a
  complete line and dropped otherwise (section 4.1).\<close>

definition decode_stream :: "string \<Rightarrow> item list \<times> decode_error option" where
  "decode_stream bytes =
     (case split_lines [] bytes of
        (ls, r) \<Rightarrow>
          (case decode_lines ls of
             (its, Some e) \<Rightarrow> (its, Some e)
           | (its, None) \<Rightarrow>
               (its @ (if r = [] then []
                       else (case decode_line r of Inr it \<Rightarrow> [it] | Inl e \<Rightarrow> [])), None)))"

text \<open>The fragments and the data events of a sequence of items, in order.\<close>

fun texts_of :: "item list \<Rightarrow> string list" where
  "texts_of [] = []"
| "texts_of (TextItem s # its) = s # texts_of its"
| "texts_of (DataItem vs # its) = texts_of its"

fun data_of :: "item list \<Rightarrow> json list" where
  "data_of [] = []"
| "data_of (TextItem s # its) = data_of its"
| "data_of (DataItem vs # its) = vs @ data_of its"

subsection \<open>The multiplexer\<close>

text \<open>Modelled from the spec: the state of the side-channel multiplexer (section 4.4);
  \<open>experimental_StreamData\<close> and \<open>StreamingTextResponse\<close> are not
  among the sources. It holds the events appended since the last flush, whether
  \<open>close()\<close> has been called, whether the text sequence is exhausted, the items
  emitted so far and whether the end of the stream has been signalled.\<close>

record mux =
  pending :: "json list"
  closed :: bool
  text_done :: bool
  out :: "item list"
  ended :: bool

text \<open>Modelled from the spec: what can happen to the multiplexer (sections 5 and 6):
  the producer appends a value or closes, and the text sequence delivers a fragment or ends,
  the two interleaved in any order. The multiplexer is not among the sources.\<close>

datatype mux_event = Append json | Close | Text string | TextEnd

text \<open>Modelled from the spec: the error of the producer interface (sections 6 and 7):
  appending after close. The multiplexer is not among the sources.\<close>

datatype mux_error = AppendAfterClose

text \<open>Modelled from the spec: the multiplexer at the start of a session; it is not
  among the sources.\<close>

definition mux_init :: mux where
  "mux_init = \<lparr>pending = [], closed = False, text_done = False, out = [], ended = False\<rparr>"

text \<open>Modelled from the spec: the flush of the emission policy (sections 4.4 and 9):
  the events appended since the last flush are emitted as one batch, and nothing is emitted
  when there are none. The multiplexer is not among the sources.\<close>

definition flush :: "mux \<Rightarrow> mux" where
  "flush m = (if pending m = [] then m
              else m\<lparr>out := out m @ [DataItem (pending m)], pending := []\<rparr>)"

text \<open>Modelled from the spec: the closing order (section 4.4): the end of the stream
  is signalled, after a last flush, once the text sequence is exhausted and
  \<open>close()\<close> has been called. The multiplexer is not among the sources.\<close>

definition finish :: "mux \<Rightarrow> mux" where
  "finish m = (if text_done m \<and> closed m \<and> \<not> ended m then (flush m)\<lparr>ended := True\<rparr> else m)"

text \<open>Modelled from the spec: one step of the multiplexer (sections 4.4, 6, 7 and 9):
  appending after \<open>close()\<close> is an error for the producer and changes nothing; a
  fragment is emitted after the pending batch; no fragment arrives once the text sequence is
  exhausted. The multiplexer is not among the sources.\<close>

fun mux_step :: "mux_event \<Rightarrow> mux \<Rightarrow> mux_error option \<times> mux" where
  "mux_step (Append v) m =
     (if closed m then (Some AppendAfterClose, m)
      else (None, m\<lparr>pending := pending m @ [v]\<rparr>))"
| "mux_step Close m = (None, finish (m\<lparr>closed := True\<rparr>))"
| "mux_step (Text s) m =
     (if text_done m then (None, m)
      else (None, (flush m)\<lparr>out := out (flush m) @ [TextItem s]\<rparr>))"
| "mux_step TextEnd m = (None, finish (m\<lparr>text_done := True\<rparr>))"

text \<open>Modelled from the spec: a session of the multiplexer: the events in the order in
  which they happen (section 5: cooperative interleaving). The multiplexer is not among the
  sources.\<close>

definition mux_run :: "mux_event list \<Rightarrow> mux \<Rightarrow> mux" where
  "mux_run es m = fold (\<lambda>e m. snd (mux_step e m)) es m"

text \<open>Modelled from the spec: the bytes on the wire: the lines of the items emitted
  (section 4.4); the response wrapper is not among the sources.\<close>

definition wire :: "mux \<Rightarrow> string" where
  "wire m = encode_stream (out m)"

text \<open>Modelled from the spec: tagging is opt-in per session (section 4.4); the stream
  helpers that take the option are not among the sources.\<close>

datatype mode = Plain | Tagged

text \<open>Modelled from the spec: with the side channel disabled the bytes of a fragment
  pass through unmodified, otherwise the fragment becomes a text line (section 4.4); the
  encoder is not among the sources.\<close>

definition encode_fragment :: "mode \<Rightarrow> string \<Rightarrow> string" where
  "encode_fragment md s = (case md of Plain \<Rightarrow> s | Tagged \<Rightarrow> text_line s)"

text \<open>What the two actors contribute in a sequence of events: the fragments delivered
  until the text sequence ends, and the values appended until the producer closes.\<close>

fun fragments :: "mux_event list \<Rightarrow> string list" where
  "fragments [] = []"
| "fragments (TextEnd # es) = []"
| "fragments (Text s # es) = s # fragments es"
| "fragments (e # es) = fragments es"

fun appended :: "mux_event list \<Rightarrow> json list" where
  "appended [] = []"
| "appended (Close # es) = []"
| "appended (Append v # es) = v # appended es"
| "appended (e # es) = appended es"

fun is_Append :: "mux_event \<Rightarrow> bool" where
  "is_Append (Append v) = True"
| "is_Append e = False"

subsection \<open>Auxiliary notions\<close>

text \<open>The text of one member of an object.\<close>

definition member_text :: "string \<times> json \<Rightarrow> string" where
  "member_text kv = quote (fst kv) @ CHR '':'' # stringify (snd kv)"

text \<open>What may follow a value inside an encoded payload: nothing, or a separator.\<close>

definition delim :: "string \<Rightarrow> bool" where
  "delim s = (case s of [] \<Rightarrow> True | c # _ \<Rightarrow> c = CHR '','' \<or> c = CHR '']'' \<or> c = CHR ''}'')"

text \<open>The characters a value can begin with.\<close>

definition value_start :: "char \<Rightarrow> bool" where
  "value_start c =
     (c = CHR ''n'' \<or> c = CHR ''t'' \<or> c = CHR ''f'' \<or> c = CHR 0x22 \<or> c = CHR ''[''
      \<or> c = CHR ''{'' \<or> c = CHR ''-'' \<or> is_digit c)"

text \<open>The invariant of the multiplexer: the end is signalled exactly when both sides
  are done, and then nothing is pending.\<close>

definition mux_ok :: "mux \<Rightarrow> bool" where
  "mux_ok m = ((ended m = (text_done m \<and> closed m)) \<and> (ended m \<longrightarrow> pending m = []))"

section \<open>Properties of the completion hook\<close>

subsection \<open>Frame lemmas\<close>

lemma stop_frame [simp]:
  "cache (stop st) = cache st" "error (stop st) = error st" "isMutating (stop st) = isMutating st"
  "log (stop st) = log st" "fresh (stop st) = fresh st"
  by (simp_all add: stop_def setAbortController_def split: option.splits)

lemma stop_if_frame [simp]:
  "cache (stop_if b st) = cache st" "error (stop_if b st) = error st"
  "isMutating (stop_if b st) = isMutating st" "log (stop_if b st) = log st"
  by (simp_all add: stop_if_def)

lemma mutate_frame [simp]:
  "cache (mutate h v st) = (cache st)(key h \<mapsto> v)" "error (mutate h v st) = error st"
  "isMutating (mutate h v st) = isMutating st" "log (mutate h v st) = log st @ [Mutate v]"
  "abortController (mutate h v st) = abortController st" "aborted (mutate h v st) = aborted st"
  by (simp_all add: mutate_def)

lemma emit_frame [simp]:
  "cache (emit e st) = cache st" "error (emit e st) = error st"
  "isMutating (emit e st) = isMutating st" "log (emit e st) = log st @ [e]"
  "abortController (emit e st) = abortController st" "aborted (emit e st) = aborted st"
  by (simp_all add: emit_def)

lemma setAbortController_frame [simp]:
  "cache (setAbortController c st) = cache st" "error (setAbortController c st) = error st"
  "isMutating (setAbortController c st) = isMutating st" "log (setAbortController c st) = log st"
  "abortController (setAbortController c st) = c" "aborted (setAbortController c st) = aborted st"
  by (simp_all add: setAbortController_def)

lemma log_start_request:
  "log (start_request h prompt st) =
     log st @ [NewAbortController (fresh st), Mutate [], Fetch (api h) prompt]"
  by (simp add: start_request_def Let_def)

lemma cache_start_request: "cache (start_request h prompt st) = (cache st)(key h \<mapsto> [])"
  by (simp add: start_request_def Let_def)

lemma error_start_request: "error (start_request h prompt st) = error st"
  by (simp add: start_request_def Let_def)

subsection \<open>The read loop\<close>

lemma await_read_aborts:
  assumes "\<forall>s\<in>set pre. s = Stop \<or> (\<exists>v. s = Chunk v)"
    and "cache st (key h) = Some r"
  shows "\<exists>st'. await_read h (Some c) r (pre @ Rejected e # rest) st = (Throws e, st')
           \<and> cache st' (key h) = Some (r @ concat (map (decodeAIStreamChunk h) (chunks_of pre)))
           \<and> error st' = error st \<and> isMutating st' = isMutating st"
  using assms
proof (induction pre arbitrary: r st)
  case Nil
  then show ?case by simp
next
  case (Cons s pre)
  show ?case
  proof (cases s)
    case Stop
    with Cons.prems Cons.IH [of "stop st" r] show ?thesis by simp
  next
    case (Chunk v)
    let ?r = "r @ decodeAIStreamChunk h v"
    let ?st = "emit (Read (c \<in> aborted (mutate h ?r st))) (mutate h ?r st)"
    have "cache ?st (key h) = Some ?r" by simp
    with Cons.prems Cons.IH [of ?st ?r] Chunk show ?thesis by (simp add: Let_def)
  next
    case Done
    with Cons.prems show ?thesis by auto
  next
    case (Rejected x)
    with Cons.prems show ?thesis by auto
  qed
qed

lemma log_grows_await_read:
  "\<exists>l. log (snd (await_read h ac r es st)) = log st @ l"
  "\<exists>l. log (snd (read_loop h ac r es st)) = log st @ l"
proof (induction es arbitrary: r st)
  case Nil
  { case 1 show ?case by simp }
  { case 2 show ?case by simp }
next
  case (Cons s es)
  { case 1
    show ?case
    proof (cases s)
      case Stop
      with Cons.IH(1) [of r "stop st"] show ?thesis by simp
    next
      case (Chunk v)
      then show ?thesis
        using Cons.IH(2) [of "r @ decodeAIStreamChunk h v" "mutate h (r @ decodeAIStreamChunk h v) st"]
        by (auto simp: Let_def simp del: read_loop.simps)
    qed simp_all
  }
  note aw = this
  { case 2
    show ?case using aw [of r "emit (Read (case ac of None \<Rightarrow> False | Some c \<Rightarrow> c \<in> aborted st)) st"]
      by auto }
qed

lemma cache_await_read:
  assumes "cache st (key h) = Some r"
  shows "cache (snd (await_read h (Some c) r es st)) (key h)
           = Some (r @ concat (map (decodeAIStreamChunk h) (read_chunks es)))"
  using assms
proof (induction es arbitrary: r st)
  case Nil
  then show ?case by simp
next
  case (Cons s es)
  show ?case
  proof (cases s)
    case Stop
    with Cons.prems Cons.IH [of "stop st" r] show ?thesis by simp
  next
    case (Chunk v)
    let ?r = "r @ decodeAIStreamChunk h v"
    let ?st = "emit (Read (c \<in> aborted (mutate h ?r st))) (mutate h ?r st)"
    have "cache ?st (key h) = Some ?r" by simp
    with Cons.IH [of ?st ?r] Chunk show ?thesis by (simp add: Let_def)
  next
    case Done
    with Cons.prems show ?thesis by simp
  next
    case (Rejected x)
    with Cons.prems show ?thesis by simp
  qed
qed

lemma cache_read_body:
  assumes "cache st (key h) = Some []"
  shows "cache (snd (read_body h prompt c res st)) (key h)
           = Some (concat (map (decodeAIStreamChunk h)
                (if ok res then (case body res of None \<Rightarrow> [] | Some es \<Rightarrow> read_chunks es) else [])))"
proof (cases "ok res")
  case False
  with assms show ?thesis by (simp add: read_body_def)
next
  case True
  show ?thesis
  proof (cases "body res")
    case None
    with True assms show ?thesis by (simp add: read_body_def)
  next
    case (Some es)
    let ?st = "emit (Read (c \<in> aborted st)) st"
    have "cache ?st (key h) = Some []" using assms by simp
    from cache_await_read [OF this, of c es]
    have c: "cache (snd (await_read h (Some c) [] es ?st)) (key h)
               = Some (concat (map (decodeAIStreamChunk h) (read_chunks es)))" by simp
    obtain r st' where r: "await_read h (Some c) [] es ?st = (r, st')"
      by (cases "await_read h (Some c) [] es ?st")
    with c have "cache st' (key h) = Some (concat (map (decodeAIStreamChunk h) (read_chunks es)))"
      by simp
    with True Some r show ?thesis
      by (cases r) (simp_all add: read_body_def)
  qed
qed

lemma cache_try_block:
  "cache (snd (try_block h prompt env st)) (key h)
     = Some (concat (map (decodeAIStreamChunk h) (delivered h env)))"
proof (cases "fetch_outcome env")
  case (Rejects e)
  then show ?thesis
    by (simp add: try_block_def Let_def delivered_def cache_start_request)
next
  case (Resolves res)
  let ?st3 = "stop_if (stop_in_fetch env) (start_request h prompt st)"
  have c3: "cache ?st3 (key h) = Some []" by (simp add: cache_start_request)
  show ?thesis
  proof (cases "onResponse h")
    case None
    with Resolves cache_read_body [OF c3, of prompt "fresh st" res] show ?thesis
      by (simp add: try_block_def Let_def delivered_def quiet_onResponse_def)
  next
    case (Some f)
    let ?st4 = "stop_if (stop_in_onResponse env) (emit OnResponse ?st3)"
    have c4: "cache ?st4 (key h) = Some []" using c3 by simp
    show ?thesis
    proof (cases "f res")
      case None
      with Resolves Some cache_read_body [OF c4, of prompt "fresh st" res] show ?thesis
        by (simp add: try_block_def Let_def delivered_def quiet_onResponse_def)
    next
      case (Some e)
      with Resolves \<open>onResponse h = Some f\<close> c4 show ?thesis
        by (simp add: try_block_def Let_def delivered_def quiet_onResponse_def)
    qed
  qed
qed

lemma cache_trigger:
  "cache (snd (trigger h prompt env st)) (key h)
     = Some (concat (map (decodeAIStreamChunk h) (delivered h env)))"
proof -
  let ?st0 = "st\<lparr>isMutating := True\<rparr>"
  obtain r st' where tb: "try_block h prompt env ?st0 = (r, st')"
    by (cases "try_block h prompt env ?st0")
  with cache_try_block [of h prompt env ?st0]
  have c: "cache st' (key h) = Some (concat (map (decodeAIStreamChunk h) (delivered h env)))"
    by simp
  show ?thesis
  proof (cases r)
    case (Returns x)
    with tb c show ?thesis by (simp add: trigger_def fetcher_def)
  next
    case (Throws e)
    with tb c show ?thesis by (cases "name e = ''AbortError''") (simp_all add: trigger_def fetcher_def)
  next
    case Pending
    with tb c show ?thesis by (simp add: trigger_def fetcher_def)
  qed
qed

text \<open>A request writes to no cache entry but the one of its own key.\<close>

lemma cache_other_await_read:
  "k \<noteq> key h \<Longrightarrow> cache (snd (await_read h ac r es st)) k = cache st k"
  "k \<noteq> key h \<Longrightarrow> cache (snd (read_loop h ac r es st)) k = cache st k"
proof (induction es arbitrary: r st)
  case Nil
  { case 1 show ?case by simp }
  { case 2 show ?case by simp }
next
  case (Cons s es)
  { case 1
    show ?case
    proof (cases s)
      case Stop
      with 1 Cons.IH(1) [of r "stop st"] show ?thesis by simp
    next
      case (Chunk v)
      with 1 Cons.IH(2) [of "r @ decodeAIStreamChunk h v" "mutate h (r @ decodeAIStreamChunk h v) st"]
      show ?thesis by (simp add: Let_def del: read_loop.simps)
    qed simp_all
  }
  note aw = this
  { case 2
    with aw [of r "emit (Read (case ac of None \<Rightarrow> False | Some c \<Rightarrow> c \<in> aborted st)) st"]
    show ?case by simp }
qed

lemma cache_other_read_body:
  assumes "k \<noteq> key h"
  shows "cache (snd (read_body h prompt c res st)) k = cache st k"
proof (cases "ok res \<and> body res \<noteq> None")
  case False
  then show ?thesis by (auto simp: read_body_def)
next
  case True
  then obtain es where es: "body res = Some es" and ok: "ok res" by auto
  obtain r st' where r: "read_loop h (Some c) [] es st = (r, st')"
    by (cases "read_loop h (Some c) [] es st")
  with cache_other_await_read(2) [OF assms, of "Some c" "[]" es st]
  have "cache st' k = cache st k" by simp
  with es ok r show ?thesis by (cases r) (simp_all add: read_body_def)
qed

lemma cache_other_try_block:
  assumes "k \<noteq> key h"
  shows "cache (snd (try_block h prompt env st)) k = cache st k"
proof -
  have c3: "cache (start_request h prompt st) k = cache st k"
    using assms by (simp add: cache_start_request)
  show ?thesis
  proof (cases "fetch_outcome env")
    case (Rejects e)
    with c3 show ?thesis by (simp add: try_block_def Let_def)
  next
    case (Resolves res)
    show ?thesis
    proof (cases "onResponse h")
      case None
      with Resolves c3 show ?thesis
        by (simp add: try_block_def Let_def cache_other_read_body [OF assms])
    next
      case (Some f)
      with Resolves c3 show ?thesis
        by (cases "f res") (simp_all add: try_block_def Let_def cache_other_read_body [OF assms])
    qed
  qed
qed

lemma cache_other_trigger:
  assumes "k \<noteq> key h"
  shows "cache (snd (trigger h prompt env st)) k = cache st k"
proof -
  let ?st0 = "st\<lparr>isMutating := True\<rparr>"
  obtain r st' where tb: "try_block h prompt env ?st0 = (r, st')"
    by (cases "try_block h prompt env ?st0")
  with cache_other_try_block [OF assms, of prompt env ?st0]
  have c: "cache st' k = cache st k" by simp
  show ?thesis
  proof (cases r)
    case (Returns x)
    with tb c show ?thesis by (simp add: trigger_def fetcher_def)
  next
    case (Throws e)
    with tb c show ?thesis by (cases "name e = ''AbortError''") (simp_all add: trigger_def fetcher_def)
  next
    case Pending
    with tb c show ?thesis by (simp add: trigger_def fetcher_def)
  qed
qed

subsection \<open>Cancellation\<close>

text \<open>
  Claim C4, as stated, fails: the request counts as aborted only when it is ended by an
  error named \<open>AbortError\<close>, which the \<open>catch\<close> block tests. In a session cancelled by
  \<open>stop()\<close> after the chunks \<open>Hel\<close> and \<open>lo\<close>, a pending read rejected with an error of
  another name makes the request throw: the session is errored and the error is the hook's
  \<open>error\<close>. And when the body goes on delivering after \<open>stop()\<close>, the request returns
  the whole text as a completed one, not null.
\<close>

theorem cancelled_session_not_aborted:
  "session_of (fst (trigger (demo_hook None '':r0:'' []) ''Say hello''
       (streamed [Chunk ''Hel'', Chunk ''lo'', Stop, Rejected (Err ''TypeError'' ''terminated'')])
       idle)) = Errored
   \<and> error (snd (trigger (demo_hook None '':r0:'' []) ''Say hello''
       (streamed [Chunk ''Hel'', Chunk ''lo'', Stop, Rejected (Err ''TypeError'' ''terminated'')])
       idle)) = Some (Err ''TypeError'' ''terminated'')
   \<and> session_of (fst (trigger (demo_hook None '':r0:'' []) ''Say hello''
       (streamed [Chunk ''Hel'', Chunk ''lo'', Stop, Chunk ''!'', Done]) idle)) = Completed
   \<and> completion (demo_hook None '':r0:'' [])
       (snd (trigger (demo_hook None '':r0:'' []) ''Say hello''
          (streamed [Chunk ''Hel'', Chunk ''lo'', Stop, Chunk ''!'', Done]) idle)) = ''Hello!''"
  by (simp add: trigger_def fetcher_def try_block_def read_body_def start_request_def
      streamed_def demo_hook_def idle_def Let_def stop_if_def stop_def mutate_def emit_def
      setAbortController_def key_def completionId_def completion_def)

text \<open>
  Claim C4, amended. A session is cancelled mid-stream: the response was ok, some chunks
  were read, possibly with calls of \<open>stop()\<close> in between, and the pending read is rejected
  with an error named \<open>AbortError\<close>, which is how the transport answers the aborted
  signal. Then the request returns null instead of throwing, so the session is aborted and
  not errored, the hook's \<open>error\<close> is undefined, and the completion is still the
  concatenation of the chunks read so far.
\<close>

theorem abort_keeps_partial_completion:
  assumes fo: "fetch_outcome env = Resolves res"
    and ok: "ok res"
    and bd: "body res = Some (pre @ Rejected e # rest)"
    and pre: "\<forall>s\<in>set pre. s = Stop \<or> (\<exists>v. s = Chunk v)"
    and ab: "abort_error e"
    and q: "quiet_onResponse h res"
  shows "\<exists>st'. trigger h prompt env st = (Returns None, st')
           \<and> session_of (fst (trigger h prompt env st)) = Aborted
           \<and> error st' = None
           \<and> completion h st' = concat (map (decodeAIStreamChunk h) (chunks_of pre))"
proof -
  let ?st0 = "st\<lparr>isMutating := True\<rparr>"
  let ?st3 = "stop_if (stop_in_fetch env) (start_request h prompt ?st0)"
  define st4 where
    "st4 = (case onResponse h of None \<Rightarrow> ?st3
            | Some f \<Rightarrow> stop_if (stop_in_onResponse env) (emit OnResponse ?st3))"
  have c4: "cache st4 (key h) = Some []"
    by (simp add: st4_def start_request_def Let_def split: option.splits)
  let ?st5 = "emit (Read (fresh ?st0 \<in> aborted st4)) st4"
  have "cache ?st5 (key h) = Some []" using c4 by simp
  from await_read_aborts [OF pre this, of "fresh ?st0" e rest]
  obtain st6 where
    ar: "await_read h (Some (fresh ?st0)) [] (pre @ Rejected e # rest) ?st5 = (Throws e, st6)"
    and c6: "cache st6 (key h) = Some (concat (map (decodeAIStreamChunk h) (chunks_of pre)))"
    and e6: "error st6 = error ?st5" by auto
  have rb: "read_body h prompt (fresh ?st0) res st4 = (Throws e, st6)"
    using ok bd ar by (simp add: read_body_def)
  have tb: "try_block h prompt env ?st0 = (Throws e, st6)"
    using fo q rb
    by (simp add: try_block_def Let_def quiet_onResponse_def st4_def split: option.splits)
  have ft: "fetcher h prompt env ?st0 = (Returns None, setAbortController None st6)"
    using tb ab by (simp add: fetcher_def abort_error_def)
  have tr: "trigger h prompt env st =
              (Returns None, (setAbortController None st6)\<lparr>error := None, isMutating := False\<rparr>)"
    using ft by (simp add: trigger_def)
  show ?thesis using tr c6 by (simp add: completion_def)
qed

theorem abort_keeps_partial_completion_witness:
  "ok \<lparr>ok = True, body = Some [Chunk ''Hel'', Chunk ''lo'', Stop, Rejected (Err ''AbortError'' [])]\<rparr>
   \<and> abort_error (Err ''AbortError'' [])
   \<and> (\<exists>st'. trigger (demo_hook None '':r0:'' []) ''Say hello''
               (streamed [Chunk ''Hel'', Chunk ''lo'', Stop, Rejected (Err ''AbortError'' [])]) idle
             = (Returns None, st')
           \<and> error st' = None
           \<and> completion (demo_hook None '':r0:'' []) st' = ''Hello'')"
proof -
  let ?es = "[Chunk ''Hel'', Chunk ''lo'', Stop, Rejected (Err ''AbortError'' [])]"
  let ?h = "demo_hook None '':r0:'' []"
  have fo: "fetch_outcome (streamed ?es) = Resolves \<lparr>ok = True, body = Some ?es\<rparr>"
    by (simp add: streamed_def)
  have ok: "ok \<lparr>ok = True, body = Some ?es\<rparr>" by simp
  have bd: "body \<lparr>ok = True, body = Some ?es\<rparr>
              = Some ([Chunk ''Hel'', Chunk ''lo'', Stop] @ Rejected (Err ''AbortError'' []) # [])"
    by simp
  have pre: "\<forall>s\<in>set [Chunk ''Hel'', Chunk ''lo'', Stop]. s = Stop \<or> (\<exists>v. s = Chunk v)"
    by simp
  have ab: "abort_error (Err ''AbortError'' [])" by (simp add: abort_error_def)
  have q: "quiet_onResponse ?h \<lparr>ok = True, body = Some ?es\<rparr>"
    by (simp add: quiet_onResponse_def demo_hook_def)
  from abort_keeps_partial_completion [OF fo ok bd pre ab q, of "''Say hello''" idle]
  obtain st' where "trigger ?h ''Say hello'' (streamed ?es) idle = (Returns None, st')"
    "error st' = None"
    "completion ?h st' = concat (map (decodeAIStreamChunk ?h) (chunks_of [Chunk ''Hel'', Chunk ''lo'', Stop]))"
    by blast
  moreover have "concat (map (decodeAIStreamChunk ?h) (chunks_of [Chunk ''Hel'', Chunk ''lo'', Stop]))
                  = ''Hello''"
    by (simp add: demo_hook_def)
  ultimately show ?thesis using ab by auto
qed

subsection \<open>Transport failures\<close>

text \<open>
  Claim C9. When the request fails at the transport level (\<open>fetch\<close> rejects with an
  error that is not an abort, the status is not a success, or the body is missing) the
  request throws, the session is errored and the error is the hook's \<open>error\<close>. Its
  effects are one call of \<open>fetch\<close>, the emptying of the completion before it, and the
  \<open>onResponse\<close> callback if a response arrived: no second \<open>fetch\<close>, no read and no
  other update of the completion, which stays empty.
\<close>

theorem transport_failure_ends_in_error:
  assumes "transport_failure h env"
  shows "\<exists>e st'. trigger h prompt env st = (Throws e, st')
           \<and> session_of (fst (trigger h prompt env st)) = Errored
           \<and> error st' = Some e
           \<and> log st' = log st @ [NewAbortController (fresh st), Mutate [], Fetch (api h) prompt]
                          @ failure_effects h env
           \<and> cache st' = (cache st)(key h \<mapsto> [])"
proof (cases "fetch_outcome env")
  case (Rejects e)
  with assms show ?thesis
    by (simp add: transport_failure_def failure_effects_def trigger_def fetcher_def
        try_block_def Let_def abort_error_def log_start_request cache_start_request)
next
  case (Resolves res)
  with assms have bad: "\<not> ok res \<or> body res = None" and q: "quiet_onResponse h res"
    by (simp_all add: transport_failure_def)
  define e where "e = (if \<not> ok res then Err ''Error'' ''Failed to fetch the completion response.''
                       else Err ''Error'' ''The response body is empty.'')"
  have rb: "read_body h prompt c res s = (Throws e, s)" for c s
    using bad by (auto simp: read_body_def e_def)
  have ne: "name e \<noteq> ''AbortError''" by (simp add: e_def)
  show ?thesis
    using Resolves q rb ne
    by (cases "onResponse h")
       (simp_all add: failure_effects_def trigger_def fetcher_def quiet_onResponse_def
          try_block_def Let_def log_start_request cache_start_request)
qed

theorem transport_failure_ends_in_error_witness:
  "transport_failure (demo_hook None '':r0:'' ''old'')
     \<lparr>stop_in_fetch = False, fetch_outcome = Resolves \<lparr>ok = False, body = Some [Chunk ''x'', Done]\<rparr>,
      stop_in_onResponse = False\<rparr>
   \<and> (\<exists>e st'. trigger (demo_hook None '':r0:'' ''old'') ''p''
                 \<lparr>stop_in_fetch = False,
                  fetch_outcome = Resolves \<lparr>ok = False, body = Some [Chunk ''x'', Done]\<rparr>,
                  stop_in_onResponse = False\<rparr> idle = (Throws e, st')
           \<and> error st' = Some e
           \<and> log st' = [NewAbortController 0, Mutate [], Fetch ''/api/completion'' ''p'']
           \<and> completion (demo_hook None '':r0:'' ''old'') st' = [])"
proof -
  let ?h = "demo_hook None '':r0:'' ''old''"
  let ?env = "\<lparr>stop_in_fetch = False,
               fetch_outcome = Resolves \<lparr>ok = False, body = Some [Chunk ''x'', Done]\<rparr>,
               stop_in_onResponse = False\<rparr>"
  have tf: "transport_failure ?h ?env"
    by (simp add: transport_failure_def quiet_onResponse_def demo_hook_def)
  from transport_failure_ends_in_error [OF tf, of "''p''" idle]
  obtain e st' where "trigger ?h ''p'' ?env idle = (Throws e, st')" "error st' = Some e"
    "log st' = log idle @ [NewAbortController (fresh idle), Mutate [], Fetch (api ?h) ''p'']
                 @ failure_effects ?h ?env"
    "cache st' = (cache idle)(key ?h \<mapsto> [])" by blast
  then show ?thesis using tf
    by (simp add: idle_def demo_hook_def failure_effects_def completion_def)
qed

subsection \<open>Starting a request\<close>

text \<open>
  Claim C10. A request started by \<open>complete\<close>, or by \<open>handleSubmit\<close> (which starts
  one exactly when the input is not empty), first empties the completion: its effects begin
  with the new controller, the emptying of the completion and the call of \<open>fetch\<close>, in
  this order, so the cache entry of the key is the empty string when \<open>fetch\<close> is called,
  whatever the cache held and whatever \<open>initialCompletion\<close> is. From then on the
  completion is the text of the chunks this request has read, and nothing else: it is
  empty as long as no chunk has arrived, at whatever point the request stands or ends.
\<close>

theorem request_empties_completion:
  "cache (start_request h prompt st) (key h) = Some []
   \<and> completion h (start_request h prompt st) = []
   \<and> log (start_request h prompt st) =
       log st @ [NewAbortController (fresh st), Mutate [], Fetch (api h) prompt]
   \<and> (\<exists>rest. log (snd (complete h prompt env st)) = log (start_request h prompt st) @ rest)
   \<and> cache (snd (complete h prompt env st)) (key h)
       = Some (concat (map (decodeAIStreamChunk h) (delivered h env)))
   \<and> completion h (snd (complete h prompt env st))
       = concat (map (decodeAIStreamChunk h) (delivered h env))
   \<and> handleSubmit h input env st =
       (if input = [] then None else Some (complete h input env st))"
proof -
  let ?st0 = "st\<lparr>isMutating := True\<rparr>"
  let ?st3 = "stop_if (stop_in_fetch env) (start_request h prompt ?st0)"
  have l3: "log ?st3 = log (start_request h prompt st)"
    by (simp add: log_start_request)
  have rb: "\<exists>l. log (snd (read_body h prompt c res s)) = log s @ l" for c res s
  proof (cases "ok res \<and> body res \<noteq> None")
    case True
    then obtain es where es: "body res = Some es" by auto
    obtain l where "log (snd (read_loop h (Some c) [] es s)) = log s @ l"
      using log_grows_await_read(2) by blast
    with True es show ?thesis
      by (cases "read_loop h (Some c) [] es s"; cases "fst (read_loop h (Some c) [] es s)")
         (auto simp: read_body_def simp del: read_loop.simps)
  next
    case False
    then show ?thesis by (auto simp: read_body_def)
  qed
  have tb: "\<exists>l. log (snd (try_block h prompt env ?st0)) = log ?st3 @ l"
  proof (cases "fetch_outcome env")
    case (Rejects e)
    then show ?thesis by (simp add: try_block_def Let_def)
  next
    case (Resolves res)
    show ?thesis
    proof (cases "onResponse h")
      case None
      with Resolves rb [of "fresh st" res ?st3] show ?thesis
        by (simp add: try_block_def Let_def)
    next
      case (Some f)
      let ?st4 = "stop_if (stop_in_onResponse env) (emit OnResponse ?st3)"
      from rb [of "fresh st" res ?st4] obtain l where
        "log (snd (read_body h prompt (fresh st) res ?st4)) = log ?st4 @ l" by blast
      with Resolves Some show ?thesis
        by (cases "f res") (simp_all add: try_block_def Let_def)
    qed
  qed
  then obtain l where l: "log (snd (try_block h prompt env ?st0)) = log ?st3 @ l" by blast
  have ft: "log (snd (fetcher h prompt env ?st0)) = log (snd (try_block h prompt env ?st0))"
    by (cases "try_block h prompt env ?st0"; cases "fst (try_block h prompt env ?st0)")
       (auto simp: fetcher_def)
  have tr: "log (snd (trigger h prompt env st)) = log (snd (fetcher h prompt env ?st0))"
    by (cases "fetcher h prompt env ?st0"; cases "fst (fetcher h prompt env ?st0)")
       (auto simp: trigger_def)
  have "log (snd (complete h prompt env st)) = log (start_request h prompt st) @ l"
    using tr ft l l3 by (simp add: complete_def)
  then have lg: "\<exists>rest. log (snd (complete h prompt env st)) = log (start_request h prompt st) @ rest"
    by blast
  have ca: "cache (snd (complete h prompt env st)) (key h)
              = Some (concat (map (decodeAIStreamChunk h) (delivered h env)))"
    unfolding complete_def by (rule cache_trigger)
  then have co: "completion h (snd (complete h prompt env st))
              = concat (map (decodeAIStreamChunk h) (delivered h env))"
    by (simp add: completion_def)
  show ?thesis
    using lg ca co
    by (simp add: cache_start_request completion_def log_start_request handleSubmit_def
        complete_def)
qed

theorem request_empties_completion_witness:
  "completion (demo_hook (Some ''chat'') '':r0:'' ''initial text'')
       (setCompletion (demo_hook (Some ''chat'') '':r0:'' ''initial text'') ''previous answer'' idle)
     = ''previous answer''
   \<and> completion (demo_hook (Some ''chat'') '':r0:'' ''initial text'')
       (snd (complete (demo_hook (Some ''chat'') '':r0:'' ''initial text'') ''p'' (streamed [])
          (setCompletion (demo_hook (Some ''chat'') '':r0:'' ''initial text'') ''previous answer'' idle)))
     = []
   \<and> completion (demo_hook (Some ''chat'') '':r0:'' ''initial text'')
       (snd (complete (demo_hook (Some ''chat'') '':r0:'' ''initial text'') ''p''
          \<lparr>stop_in_fetch = False, fetch_outcome = Rejects (Err ''TypeError'' ''Failed to fetch''),
           stop_in_onResponse = False\<rparr>
          (setCompletion (demo_hook (Some ''chat'') '':r0:'' ''initial text'') ''previous answer'' idle)))
     = []
   \<and> completion (demo_hook (Some ''chat'') '':r0:'' ''initial text'')
       (snd (complete (demo_hook (Some ''chat'') '':r0:'' ''initial text'') ''p''
          (streamed [Chunk ''Hi'', Done])
          (setCompletion (demo_hook (Some ''chat'') '':r0:'' ''initial text'') ''previous answer'' idle)))
     = ''Hi''
   \<and> completion (demo_hook (Some ''chat'') '':r0:'' ''initial text'')
       (snd (complete (demo_hook (Some ''chat'') '':r0:'' ''initial text'') ''p'' (streamed [Done]) idle))
     = []
   \<and> handleSubmit (demo_hook None '':r0:'' []) [] (streamed [Done]) idle = None
   \<and> handleSubmit (demo_hook None '':r0:'' []) ''p'' (streamed [Done]) idle
       = Some (complete (demo_hook None '':r0:'' []) ''p'' (streamed [Done]) idle)"
proof -
  let ?h = "demo_hook (Some ''chat'') '':r0:'' ''initial text''"
  let ?s = "setCompletion ?h ''previous answer'' idle"
  let ?rej = "\<lparr>stop_in_fetch = False, fetch_outcome = Rejects (Err ''TypeError'' ''Failed to fetch''),
               stop_in_onResponse = False\<rparr> :: string env"
  have d: "delivered ?h (streamed []) = []" "delivered ?h ?rej = []"
    "delivered ?h (streamed [Chunk ''Hi'', Done]) = [''Hi'']" "delivered ?h (streamed [Done]) = []"
    by (simp_all add: delivered_def streamed_def quiet_onResponse_def demo_hook_def)
  have dec: "decodeAIStreamChunk ?h = (\<lambda>s. s)" by (simp add: demo_hook_def)
  have prev: "completion ?h ?s = ''previous answer''"
    by (simp add: setCompletion_def completion_def)
  show ?thesis
    using request_empties_completion [of ?h "''p''" ?s "streamed []" "[]"]
      request_empties_completion [of ?h "''p''" ?s ?rej "[]"]
      request_empties_completion [of ?h "''p''" ?s "streamed [Chunk ''Hi'', Done]" "[]"]
      request_empties_completion [of ?h "''p''" idle "streamed [Done]" "[]"]
      request_empties_completion [of "demo_hook None '':r0:'' []" "''p''" idle "streamed [Done]" "[]"]
      request_empties_completion [of "demo_hook None '':r0:'' []" "''p''" idle "streamed [Done]" "''p''"]
      d dec prev
    by simp
qed

subsection \<open>The shared cache\<close>

text \<open>
  Claim C7, as stated, fails in three places. Two instances with the same endpoint and the
  same id, but different \<open>initialCompletion\<close>, show different completions while the
  cache has no entry for their key. Two instances given the same empty id do not share
  their state, since an empty id counts as none (\<open>id || hookId\<close>): a value written through
  one is not the completion of the other. And an instance without an id shares its state
  with an instance whose id is the \<open>hookId\<close> of the first: a value written through the
  second is the completion of the first.
\<close>

theorem same_id_different_completion:
  "api (demo_hook (Some ''chat'') '':r0:'' ''draft A'')
     = api (demo_hook (Some ''chat'') '':r1:'' ''draft B'')
   \<and> id_opt (demo_hook (Some ''chat'') '':r0:'' ''draft A'')
     = id_opt (demo_hook (Some ''chat'') '':r1:'' ''draft B'')
   \<and> completion (demo_hook (Some ''chat'') '':r0:'' ''draft A'') idle
     \<noteq> completion (demo_hook (Some ''chat'') '':r1:'' ''draft B'') idle
   \<and> api (demo_hook (Some []) '':r0:'' []) = api (demo_hook (Some []) '':r1:'' [])
   \<and> id_opt (demo_hook (Some []) '':r0:'' []) = id_opt (demo_hook (Some []) '':r1:'' [])
   \<and> completion (demo_hook (Some []) '':r0:'' [])
        (setCompletion (demo_hook (Some []) '':r0:'' []) ''answer'' idle) = ''answer''
   \<and> completion (demo_hook (Some []) '':r1:'' [])
        (setCompletion (demo_hook (Some []) '':r0:'' []) ''answer'' idle) = []
   \<and> id_opt (demo_hook None '':r0:'' []) = None
   \<and> completion (demo_hook None '':r0:'' []) idle = []
   \<and> completion (demo_hook None '':r0:'' [])
        (setCompletion (demo_hook (Some '':r0:'') '':r1:'' []) ''answer'' idle) = ''answer''"
  by (simp add: demo_hook_def idle_def completion_def setCompletion_def mutate_def key_def
      completionId_def)

text \<open>
  Claim C7, amended. The completion lives in the cache under the endpoint and the
  completion id, which is the id when one is given and is not empty, and the \<open>hookId\<close>
  of the instance otherwise. Two instances with the same endpoint and the same non-empty
  id have the same key. Two instances with the same key share their state: a value written
  through one, by \<open>setCompletion\<close> or by a request, is the completion of both, and they
  show the same completion whenever the cache has an entry for the key; while it has none,
  each shows its own \<open>initialCompletion\<close>. An instance without an id, or with an empty
  one, has the key of its own \<open>hookId\<close>, and the instances with its key are those of the
  same endpoint whose completion id is that \<open>hookId\<close>. A write or a request through an
  instance with another key leaves its completion unchanged.
\<close>

theorem completion_shared_by_key:
  "(api h1 = api h2 \<and> id_opt h1 = Some i \<and> id_opt h2 = Some i \<and> i \<noteq> [] \<longrightarrow> key h1 = key h2)
   \<and> (id_opt h1 = None \<or> id_opt h1 = Some [] \<longrightarrow>
        key h1 = (api h1, hookId h1)
        \<and> (key h2 = key h1 \<longleftrightarrow> api h2 = api h1 \<and> completionId h2 = hookId h1))
   \<and> (key h1 = key h2 \<longrightarrow>
        completion h1 (setCompletion h2 v st) = v
        \<and> completion h2 (setCompletion h2 v st) = v
        \<and> completion h1 (snd (complete h2 prompt env st))
            = completion h2 (snd (complete h2 prompt env st))
        \<and> (cache st (key h1) \<noteq> None \<longrightarrow> completion h1 st = completion h2 st)
        \<and> (cache st (key h1) = None \<longrightarrow>
             completion h1 st = initialCompletion h1 \<and> completion h2 st = initialCompletion h2))
   \<and> (key h1 \<noteq> key h2 \<longrightarrow>
        completion h1 (setCompletion h2 v st) = completion h1 st
        \<and> completion h1 (snd (complete h2 prompt env st)) = completion h1 st)"
proof -
  have A: "api h1 = api h2 \<and> id_opt h1 = Some i \<and> id_opt h2 = Some i \<and> i \<noteq> [] \<longrightarrow> key h1 = key h2"
    by (simp add: key_def completionId_def)
  have B: "id_opt h1 = None \<or> id_opt h1 = Some [] \<longrightarrow>
             key h1 = (api h1, hookId h1)
             \<and> (key h2 = key h1 \<longleftrightarrow> api h2 = api h1 \<and> completionId h2 = hookId h1)"
    by (auto simp: key_def completionId_def)
  have C: "completion h1 (setCompletion h2 v st) = v
           \<and> completion h2 (setCompletion h2 v st) = v
           \<and> completion h1 (snd (complete h2 prompt env st))
               = completion h2 (snd (complete h2 prompt env st))
           \<and> (cache st (key h1) \<noteq> None \<longrightarrow> completion h1 st = completion h2 st)
           \<and> (cache st (key h1) = None \<longrightarrow>
                completion h1 st = initialCompletion h1 \<and> completion h2 st = initialCompletion h2)"
    if k: "key h1 = key h2"
  proof -
    have "completion h1 (snd (complete h2 prompt env st))
            = completion h2 (snd (complete h2 prompt env st))"
      using cache_trigger [of h2 prompt env st] k by (simp add: completion_def complete_def)
    with k show ?thesis
      by (auto simp: completion_def setCompletion_def)
  qed
  have D: "completion h1 (setCompletion h2 v st) = completion h1 st
           \<and> completion h1 (snd (complete h2 prompt env st)) = completion h1 st"
    if k: "key h1 \<noteq> key h2"
    using cache_other_trigger [OF k, of prompt env st] k
    by (simp add: completion_def setCompletion_def complete_def)
  from A B C D show ?thesis by blast
qed

theorem completion_shared_by_key_witness:
  "key (demo_hook (Some ''chat'') '':r0:'' ''draft A'')
     = key (demo_hook (Some ''chat'') '':r1:'' ''draft B'')
   \<and> completion (demo_hook (Some ''chat'') '':r0:'' ''draft A'')
       (setCompletion (demo_hook (Some ''chat'') '':r1:'' ''draft B'') ''answer'' idle) = ''answer''
   \<and> completion (demo_hook (Some ''chat'') '':r1:'' ''draft B'')
       (setCompletion (demo_hook (Some ''chat'') '':r1:'' ''draft B'') ''answer'' idle) = ''answer''
   \<and> completion (demo_hook (Some ''chat'') '':r0:'' ''draft A'')
       (snd (complete (demo_hook (Some ''chat'') '':r1:'' ''draft B'') ''p''
              (streamed [Chunk ''Hi'', Done]) idle)) = ''Hi''
   \<and> completion (demo_hook (Some ''chat'') '':r0:'' ''draft A'') idle = ''draft A''
   \<and> completion (demo_hook (Some ''chat'') '':r1:'' ''draft B'') idle = ''draft B''
   \<and> key (demo_hook None '':r0:'' []) = (''/api/completion'', '':r0:'')
   \<and> key (demo_hook (Some []) '':r0:'' []) = (''/api/completion'', '':r0:'')
   \<and> key (demo_hook None '':r1:'' []) \<noteq> key (demo_hook None '':r0:'' [])
   \<and> key (demo_hook (Some '':r0:'') '':r1:'' []) = key (demo_hook None '':r0:'' [])
   \<and> completion (demo_hook None '':r0:'' [])
       (setCompletion (demo_hook (Some '':r0:'') '':r1:'' []) ''answer'' idle) = ''answer''
   \<and> completion (demo_hook None '':r0:'' ''mine'')
       (setCompletion (demo_hook None '':r1:'' []) ''answer'' idle) = ''mine''
   \<and> completion (demo_hook None '':r0:'' ''mine'')
       (snd (complete (demo_hook None '':r1:'' []) ''p'' (streamed [Chunk ''Hi'', Done]) idle))
     = ''mine''"
proof -
  let ?a = "demo_hook (Some ''chat'') '':r0:'' ''draft A''"
  let ?b = "demo_hook (Some ''chat'') '':r1:'' ''draft B''"
  let ?c = "demo_hook None '':r0:'' []"
  let ?c' = "demo_hook None '':r0:'' ''mine''"
  let ?d = "demo_hook None '':r1:'' []"
  let ?e = "demo_hook (Some []) '':r0:'' []"
  let ?f = "demo_hook (Some '':r0:'') '':r1:'' []"
  let ?env = "streamed [Chunk ''Hi'', Done]"
  have same: "api ?a = api ?b \<and> id_opt ?a = Some ''chat'' \<and> id_opt ?b = Some ''chat'' \<and> ''chat'' \<noteq> []"
    by (simp add: demo_hook_def)
  have none: "cache idle (key ?a) = None" by (simp add: idle_def)
  have ids: "id_opt ?c = None" "id_opt ?e = Some []"
    by (simp_all add: demo_hook_def)
  have vals: "api ?c = ''/api/completion''" "hookId ?c = '':r0:''" "api ?e = ''/api/completion''"
    "hookId ?e = '':r0:''" "api ?d = ''/api/completion''" "api ?f = ''/api/completion''"
    "completionId ?d = '':r1:''" "completionId ?f = '':r0:''"
    by (simp_all add: demo_hook_def completionId_def)
  have kc: "key ?c' = key ?c" by (simp add: key_def completionId_def demo_hook_def)
  have idle0: "completion ?c' idle = ''mine''"
    by (simp add: completion_def idle_def demo_hook_def)
  have run: "completion ?b (snd (complete ?b ''p'' ?env idle)) = ''Hi''"
    using cache_trigger [of ?b "''p''" ?env idle]
    by (simp add: completion_def complete_def delivered_def streamed_def quiet_onResponse_def
        demo_hook_def)
  note ab = completion_shared_by_key [of ?a ?b "''chat''" "''answer''" idle "''p''" ?env]
  note cd = completion_shared_by_key [of ?c ?d "[]" "''answer''" idle "''p''" ?env]
  note ed = completion_shared_by_key [of ?e ?d "[]" "''answer''" idle "''p''" ?env]
  note cf = completion_shared_by_key [of ?c ?f "[]" "''answer''" idle "''p''" ?env]
  note c'd = completion_shared_by_key [of ?c' ?d "[]" "''answer''" idle "''p''" ?env]
  have k1: "key ?a = key ?b" using ab same by blast
  have "key ?c = (api ?c, hookId ?c)" using cd ids(1) by blast
  then have k2: "key ?c = (''/api/completion'', '':r0:'')" by (simp only: vals)
  have "key ?e = (api ?e, hookId ?e)" using ed ids(2) by blast
  then have k3: "key ?e = (''/api/completion'', '':r0:'')" by (simp only: vals)
  have "key ?d = key ?c \<longleftrightarrow> api ?d = api ?c \<and> completionId ?d = hookId ?c"
    using cd ids(1) by blast
  then have k4: "key ?d \<noteq> key ?c" by (simp add: vals)
  have "key ?f = key ?c \<longleftrightarrow> api ?f = api ?c \<and> completionId ?f = hookId ?c"
    using cf ids(1) by blast
  then have k5: "key ?f = key ?c" by (simp add: vals)
  have k6: "key ?c' \<noteq> key ?d" using k4 kc by simp
  have p1: "completion ?a (setCompletion ?b ''answer'' idle) = ''answer''"
    "completion ?b (setCompletion ?b ''answer'' idle) = ''answer''"
    "completion ?a (snd (complete ?b ''p'' ?env idle)) = ''Hi''"
    "completion ?a idle = ''draft A''" "completion ?b idle = ''draft B''"
    using ab k1 none run by (simp_all add: demo_hook_def)
  have p2: "completion ?c (setCompletion ?f ''answer'' idle) = ''answer''"
    using cf k5 [symmetric] by blast
  have p3: "completion ?c' (setCompletion ?d ''answer'' idle) = ''mine''"
    "completion ?c' (snd (complete ?d ''p'' ?env idle)) = ''mine''"
    using c'd k6 idle0 by auto
  from k1 k2 k3 k4 k5 p1 p2 p3 show ?thesis by blast
qed

subsection \<open>The abort test of the read loop\<close>

text \<open>
  The test \<open>abortController === null\<close> in the loop reads the local constant of the
  request, which holds the controller created at its start: the branch with
  \<open>reader.cancel()\<close> is never taken.
\<close>

lemma abort_test_never_fires:
  "ReaderCancel \<notin> set (log st) \<Longrightarrow> ReaderCancel \<notin> set (log (snd (await_read h (Some c) r es st)))"
  "ReaderCancel \<notin> set (log st) \<Longrightarrow> ReaderCancel \<notin> set (log (snd (read_loop h (Some c) r es st)))"
proof (induction es arbitrary: r st)
  case Nil
  { case 1 then show ?case by simp }
  { case 2 then show ?case by simp }
next
  case (Cons s es)
  { case 1
    show ?case
    proof (cases s)
      case Stop
      with 1 Cons.IH(1) [of "stop st" r] show ?thesis by simp
    next
      case (Chunk v)
      with 1 Cons.IH(2) [of "mutate h (r @ decodeAIStreamChunk h v) st" "r @ decodeAIStreamChunk h v"]
      show ?thesis by (simp add: Let_def del: read_loop.simps)
    qed (use 1 in simp_all)
  }
  note aw = this
  { case 2
    with aw [of "emit (Read (c \<in> aborted st)) st" r] show ?case by simp }
qed

text \<open>
  So the calls of \<open>stop()\<close> do not change how the loop ends: it ends as it would have
  without them, and only a rejected read or the end of the body stops it.
\<close>

lemma stop_ignored_by_read_loop:
  "fst (await_read h (Some c) r es st) = fst (await_read h (Some c) r (removeAll Stop es) st')"
  "fst (read_loop h (Some c) r es st) = fst (read_loop h (Some c) r (removeAll Stop es) st')"
proof (induction es arbitrary: r st st')
  case Nil
  { case 1 show ?case by simp }
  { case 2 show ?case by simp }
next
  case (Cons s es)
  { case 1
    show ?case
    proof (cases s)
      case Stop
      with Cons.IH(1) [of r "stop st" st'] show ?thesis by simp
    next
      case (Chunk v)
      with Cons.IH(2) [of "r @ decodeAIStreamChunk h v" "mutate h (r @ decodeAIStreamChunk h v) st"
          "mutate h (r @ decodeAIStreamChunk h v) st'"]
      show ?thesis by (simp add: Let_def del: read_loop.simps)
    qed simp_all
  }
  note aw = this
  { case 2
    from aw [of r "emit (Read (c \<in> aborted st)) st" "emit (Read (c \<in> aborted st')) st'"]
    show ?case by simp }
qed

text \<open>
  Claim C8. No read should be started once the consumer has cancelled. On a body that
  keeps delivering chunks after \<open>stop()\<close> the hook does start them: after the call of
  \<open>stop()\<close> during the second read, two more reads are issued with the signal already
  aborted (\<open>Read True\<close>), the body is drained to its end, \<open>onFinish\<close> runs and
  the request returns the whole text.
\<close>

theorem reads_continue_after_stop:
  "trigger (demo_hook None '':r0:'' []) ''p''
     (streamed [Chunk ''Hel'', Stop, Chunk ''lo'', Chunk ''!'', Done]) idle
   = (Returns (Some ''Hello!''),
      \<lparr>cache = [(''/api/completion'', '':r0:'') \<mapsto> ''Hello!''],
       abortController = None, aborted = {0}, fresh = 1, error = None, isMutating = False,
       log = [NewAbortController 0, Mutate [], Fetch ''/api/completion'' ''p'',
              Read False, Mutate ''Hel'', Read False, Mutate ''Hello'', Read True,
              Mutate ''Hello!'', Read True, OnFinish ''p'' ''Hello!'']\<rparr>)"
  by (simp add: trigger_def fetcher_def try_block_def read_body_def start_request_def
      streamed_def demo_hook_def idle_def Let_def stop_if_def stop_def mutate_def emit_def
      setAbortController_def key_def completionId_def)

section \<open>Properties of the protocol\<close>

subsection \<open>Strings and numbers\<close>

lemma of_char_digit [simp]: "n < 10 \<Longrightarrow> (of_char (char_of (48 + n)) :: nat) = 48 + n"
  by simp

lemma hex_val_hex_digit: "d < 16 \<Longrightarrow> hex_val (hex_digit d) = Some d"
  by (auto simp: hex_val_def hex_digit_def Let_def)

lemma hex4_low: "n < 256 \<Longrightarrow> hex4 (CHR ''0'') (CHR ''0'') (hex_digit (n div 16)) (hex_digit (n mod 16)) = Some n"
proof -
  assume "n < 256"
  then have "n div 16 < 16" "n mod 16 < 16" by auto
  then show ?thesis
    by (simp add: hex4_def hex_val_hex_digit) (simp add: hex_val_def)
qed

lemma unquote_escape_char: "unquote (escape_char c @ s) = consc c (unquote s)"
proof -
  have n: "(of_char c :: nat) < 256" by simp
  show ?thesis
    using hex4_low [OF n]
    by (auto simp: escape_char_def unescape_def consc_def split: option.splits)
qed

lemma unquote_quote: "unquote (concat (map escape_char s) @ CHR 0x22 # rest) = Some (s, rest)"
  by (induction s) (simp_all add: unquote_escape_char consc_def del: unquote.simps, simp)


lemma show_nat_digits: "c \<in> set (show_nat n) \<Longrightarrow> is_digit c"
proof (induction n arbitrary: c rule: show_nat.induct)
  case (1 n)
  show ?case
  proof (cases "n < 10")
    case True
    with "1.prems" show ?thesis by (simp add: show_nat.simps [of n] is_digit_def)
  next
    case False
    then have "n mod 10 < 10" by simp
    with False "1.prems" "1.IH" show ?thesis
      by (auto simp: show_nat.simps [of n] is_digit_def)
  qed
qed

lemma show_nat_nonempty: "show_nat n \<noteq> []"
  by (simp add: show_nat.simps [of n])

lemma read_nat_snoc: "read_nat (ds @ [c]) = 10 * read_nat ds + (of_char c - 48)"
  by (simp add: read_nat_def)

lemma read_nat_show_nat: "read_nat (show_nat n) = n"
proof (induction n rule: show_nat.induct)
  case (1 n)
  show ?case
  proof (cases "n < 10")
    case True
    then show ?thesis by (simp add: show_nat.simps [of n] read_nat_def)
  next
    case False
    have "n mod 10 < 10" by simp
    then have "(of_char (char_of (48 + n mod 10)) :: nat) = 48 + n mod 10"
      by (rule of_char_digit)
    with False "1.IH" show ?thesis
      by (simp add: show_nat.simps [of n] read_nat_snoc)
  qed
qed

lemma hd_show_nat: "0 < n \<Longrightarrow> hd (show_nat n) \<noteq> CHR ''0''"
proof (induction n rule: show_nat.induct)
  case (1 n)
  show ?case
  proof (cases "n < 10")
    case True
    with "1.prems" have "(of_char (hd (show_nat n)) :: nat) = 48 + n"
      by (simp add: show_nat.simps [of n])
    with "1.prems" show ?thesis by auto
  next
    case False
    then have "0 < n div 10" by simp
    with False "1.IH" show ?thesis
      by (simp add: show_nat.simps [of n] show_nat_nonempty)
  qed
qed

lemma show_nat_zero: "show_nat 0 = ''0''"
  by code_simp

lemma length_show_nat_zero: "hd (show_nat n) = CHR ''0'' \<Longrightarrow> length (show_nat n) = 1"
  using hd_show_nat [of n] by (cases "n = 0") (auto simp: show_nat_zero)

lemma delim_not_digit: "delim (c # s) \<Longrightarrow> \<not> is_digit c"
  by (auto simp: delim_def is_digit_def)

lemma takeWhile_show_nat:
  assumes "rest = [] \<or> \<not> is_digit (hd rest)"
  shows "takeWhile is_digit (show_nat n @ rest) = show_nat n"
    and "dropWhile is_digit (show_nat n @ rest) = rest"
proof -
  have a: "\<forall>c\<in>set (show_nat n). is_digit c" using show_nat_digits by blast
  have b: "takeWhile is_digit rest = []" "dropWhile is_digit rest = rest"
    using assms by (cases rest; auto)+
  show "takeWhile is_digit (show_nat n @ rest) = show_nat n"
    using a b by (simp add: takeWhile_append2)
  show "dropWhile is_digit (show_nat n @ rest) = rest"
    using a b by (simp add: dropWhile_append2)
qed

lemma hd_show_nat_not_sign: "hd (show_nat n) \<noteq> CHR ''-''" "hd (show_nat n) \<noteq> CHR ''+''"
proof -
  have "hd (show_nat n) \<in> set (show_nat n)" using show_nat_nonempty by simp
  then have "is_digit (hd (show_nat n))" by (rule show_nat_digits)
  then show "hd (show_nat n) \<noteq> CHR ''-''" "hd (show_nat n) \<noteq> CHR ''+''"
    by (auto simp: is_digit_def)
qed

lemma parse_int_part_show_int:
  assumes "rest = [] \<or> \<not> is_digit (hd rest)"
  shows "parse_int_part (show_int i @ rest) = Some (i < 0, show_nat (nat \<bar>i\<bar>), rest)"
proof -
  have z: "\<not> (hd (show_nat n) = CHR ''0'' \<and> 1 < length (show_nat n))" for n
    using length_show_nat_zero [of n] by auto
  show ?thesis
  proof (cases "i < 0")
    case True
    then have "nat \<bar>i\<bar> = nat (- i)" by simp
    with True show ?thesis
      using z [of "nat (- i)"] takeWhile_show_nat [OF assms, of "nat (- i)"]
      by (simp add: parse_int_part_def show_int_def Let_def show_nat_nonempty)
  next
    case False
    then have n: "nat \<bar>i\<bar> = nat i" by simp
    have "show_nat (nat i) @ rest \<noteq> []" by (simp add: show_nat_nonempty)
    moreover have "hd (show_nat (nat i) @ rest) \<noteq> CHR ''-''"
      using hd_show_nat_not_sign(1) [of "nat i"] by (simp add: show_nat_nonempty)
    ultimately show ?thesis
      using False n z [of "nat i"] takeWhile_show_nat [OF assms, of "nat i"]
      by (simp add: parse_int_part_def show_int_def Let_def show_nat_nonempty)
  qed
qed

lemma parse_frac_none: "s = [] \<or> hd s \<noteq> CHR ''.'' \<Longrightarrow> parse_frac s = Some ([], s)"
  by (auto simp: parse_frac_def)

lemma parse_exp_none:
  "s = [] \<or> (hd s \<noteq> CHR ''e'' \<and> hd s \<noteq> CHR ''E'') \<Longrightarrow> parse_exp s = Some (0, s)"
  by (auto simp: parse_exp_def)

lemma delim_head:
  assumes "delim rest"
  shows "rest = [] \<or> \<not> is_digit (hd rest)" "rest = [] \<or> hd rest \<noteq> CHR ''.''"
    "rest = [] \<or> (hd rest \<noteq> CHR ''e'' \<and> hd rest \<noteq> CHR ''E'')"
  using assms by (cases rest; auto simp: delim_def is_digit_def)+

lemma parse_exp_show_int:
  assumes "delim rest"
  shows "parse_exp (CHR ''e'' # show_int e @ rest) = Some (e, rest)"
proof (cases "e < 0")
  case True
  have "hd (show_nat (nat (- e)) @ rest) \<noteq> CHR ''+''" "hd (show_nat (nat (- e)) @ rest) \<noteq> CHR ''-''"
    using hd_show_nat_not_sign [of "nat (- e)"] by (simp_all add: show_nat_nonempty)
  with True show ?thesis
    using takeWhile_show_nat [OF delim_head(1) [OF assms], of "nat (- e)"]
    by (simp add: parse_exp_def show_int_def Let_def show_nat_nonempty read_nat_show_nat)
next
  case False
  have "show_nat (nat e) @ rest \<noteq> []" by (simp add: show_nat_nonempty)
  moreover have "hd (show_nat (nat e) @ rest) \<noteq> CHR ''+''" "hd (show_nat (nat e) @ rest) \<noteq> CHR ''-''"
    using hd_show_nat_not_sign [of "nat e"] by (simp_all add: show_nat_nonempty)
  ultimately show ?thesis
    using False takeWhile_show_nat [OF delim_head(1) [OF assms], of "nat e"]
    by (simp add: parse_exp_def show_int_def Let_def show_nat_nonempty read_nat_show_nat)
qed

lemma parse_number_stringify:
  assumes "delim rest"
  shows "parse_number (show_int m @ exponent e @ rest) = Some (JNum m e, rest)"
proof -
  have sign: "(if m < 0 then - int (nat \<bar>m\<bar>) else int (nat \<bar>m\<bar>)) = m" by simp
  show ?thesis
  proof (cases "e = 0")
    case True
    have "parse_int_part (show_int m @ rest) = Some (m < 0, show_nat (nat \<bar>m\<bar>), rest)"
      using delim_head(1) [OF assms] by (rule parse_int_part_show_int)
    moreover have "parse_frac rest = Some ([], rest)"
      using delim_head(2) [OF assms] by (rule parse_frac_none)
    moreover have "parse_exp rest = Some (0, rest)"
      using delim_head(3) [OF assms] by (rule parse_exp_none)
    ultimately show ?thesis using True sign
      by (simp add: parse_number_def exponent_def read_nat_show_nat)
  next
    case False
    let ?r = "CHR ''e'' # show_int e @ rest"
    have "\<not> is_digit (CHR ''e'')" by (simp add: is_digit_def)
    then have "parse_int_part (show_int m @ ?r) = Some (m < 0, show_nat (nat \<bar>m\<bar>), ?r)"
      by (intro parse_int_part_show_int) simp
    moreover have "parse_frac ?r = Some ([], ?r)"
      by (rule parse_frac_none) simp
    moreover have "parse_exp ?r = Some (e, rest)"
      using assms by (rule parse_exp_show_int)
    ultimately show ?thesis using False sign
      by (simp add: parse_number_def exponent_def read_nat_show_nat)
  qed
qed

lemma skip_ws_Cons: "\<not> is_ws c \<Longrightarrow> skip_ws (c # s) = c # s"
  by (simp add: skip_ws_def)

lemma skip_ws_delim: "delim s \<Longrightarrow> skip_ws s = s"
  by (cases s) (auto simp: delim_def skip_ws_def is_ws_def)

lemma value_start_simps:
  "value_start c \<Longrightarrow> \<not> is_ws c"
  "value_start c \<Longrightarrow> c \<noteq> CHR '']''"
  "value_start c \<Longrightarrow> c \<noteq> CHR ''}''"
  by (auto simp: value_start_def is_ws_def is_digit_def)

lemma show_int_start: "\<exists>c t. show_int i = c # t \<and> (c = CHR ''-'' \<or> is_digit c)"
proof (cases "i < 0")
  case True
  then show ?thesis by (simp add: show_int_def)
next
  case False
  obtain c t where ct: "show_nat (nat i) = c # t"
    using show_nat_nonempty [of "nat i"] by (cases "show_nat (nat i)") auto
  then have "c \<in> set (show_nat (nat i))" by simp
  then have "is_digit c" by (rule show_nat_digits)
  with False ct show ?thesis by (simp add: show_int_def)
qed

lemma stringify_start: "\<exists>c t. stringify v = c # t \<and> value_start c"
proof (cases v)
  case (JNum m e)
  with show_int_start [of m] show ?thesis by (auto simp: value_start_def)
qed (auto simp: value_start_def quote_def)

lemma length_stringify_pos: "0 < length (stringify v)"
  using stringify_start [of v] by auto

lemma number_start:
  assumes "c = CHR ''-'' \<or> is_digit c"
  shows "\<not> is_ws c" "c \<noteq> CHR ''n''" "c \<noteq> CHR ''t''" "c \<noteq> CHR ''f''"
    "c \<noteq> CHR 0x22" "c \<noteq> CHR ''[''" "c \<noteq> CHR ''{''"
  using assms by (auto simp: is_ws_def is_digit_def)

lemma parse_value_number:
  assumes "c = CHR ''-'' \<or> is_digit c"
  shows "parse_value (Suc n) (c # r) = parse_number (c # r)"
  using number_start [OF assms] by (simp add: skip_ws_def)

lemma parse_elems_commas:
  assumes IH: "\<And>v n rest. v \<in> set vs \<Longrightarrow> length (stringify v) \<le> n \<Longrightarrow> delim rest
                 \<Longrightarrow> parse_value n (stringify v @ rest) = Some (v, rest)"
    and "vs \<noteq> []"
    and "length (commas (map stringify vs)) < n"
  shows "parse_elems n (commas (map stringify vs) @ CHR '']'' # rest) = Some (vs, rest)"
  using assms
proof (induction vs arbitrary: n)
  case Nil
  then show ?case by simp
next
  case (Cons v ws)
  from Cons.prems(3) obtain m where n: "n = Suc m" by (cases n) auto
  show ?case
  proof (cases ws)
    case Nil
    have "parse_value m (stringify v @ CHR '']'' # rest) = Some (v, CHR '']'' # rest)"
      using Cons.prems(3) n Nil by (intro Cons.prems(1)) (auto simp: delim_def)
    then show ?thesis using n Nil by (simp add: skip_ws_def is_ws_def)
  next
    case (Cons w ws')
    let ?tail = "commas (map stringify ws) @ CHR '']'' # rest"
    have len: "length (stringify v) \<le> m" "length (commas (map stringify ws)) < m"
      using Cons.prems(3) n Cons length_stringify_pos [of v] by auto
    have "parse_value m (stringify v @ CHR '','' # ?tail) = Some (v, CHR '','' # ?tail)"
      using len by (intro Cons.prems(1)) (auto simp: delim_def)
    moreover have "parse_elems m ?tail = Some (ws, rest)"
      using len Cons Cons.prems(1) by (intro Cons.IH) auto
    ultimately show ?thesis using n Cons by (simp add: skip_ws_def is_ws_def)
  qed
qed

lemma length_member: "length (stringify (snd kv)) + 3 \<le> length (member_text kv)"
  by (simp add: member_text_def quote_def)

lemma parse_members_step:
  assumes "parse_value m (stringify v @ t) = Some (v, t)"
  shows "parse_members (Suc m) (member_text (k, v) @ t) =
           (case skip_ws t of
              [] \<Rightarrow> None
            | d # r4 \<Rightarrow>
                if d = CHR ''}'' then Some ([(k, v)], r4)
                else if d = CHR '','' then
                  (case parse_members m r4 of
                     None \<Rightarrow> None
                   | Some (ms, r5) \<Rightarrow> Some ((k, v) # ms, r5))
                else None)"
proof -
  have "unquote (concat (map escape_char k) @ CHR 0x22 # CHR '':'' # stringify v @ t)
          = Some (k, CHR '':'' # stringify v @ t)"
    by (rule unquote_quote)
  with assms show ?thesis
    by (simp add: skip_ws_def is_ws_def member_text_def quote_def)
qed

lemma parse_members_commas:
  assumes IH: "\<And>k v n rest. (k, v) \<in> set ms \<Longrightarrow> length (stringify v) \<le> n \<Longrightarrow> delim rest
                 \<Longrightarrow> parse_value n (stringify v @ rest) = Some (v, rest)"
    and "ms \<noteq> []"
    and "length (commas (map member_text ms)) < n"
  shows "parse_members n (commas (map member_text ms) @ CHR ''}'' # rest) = Some (ms, rest)"
  using assms
proof (induction ms arbitrary: n)
  case Nil
  then show ?case by simp
next
  case (Cons kv ws)
  obtain k v where kv: "kv = (k, v)" by (cases kv)
  from Cons.prems(3) obtain m where n: "n = Suc m" by (cases n) auto
  have lm: "length (stringify v) + 3 \<le> length (member_text (k, v))"
    using length_member [of "(k, v)"] by simp
  have inset: "(k, v) \<in> set (kv # ws)" using kv by simp
  show ?case
  proof (cases ws)
    case Nil
    have "length (commas (map member_text (kv # ws))) = length (member_text (k, v))"
      using Nil kv by simp
    with Cons.prems(3) n lm have "length (stringify v) \<le> m" by linarith
    moreover have "delim (CHR ''}'' # rest)" by (simp add: delim_def)
    ultimately have pv0: "parse_value m (stringify v @ CHR ''}'' # rest) = Some (v, CHR ''}'' # rest)"
      using inset by (rule Cons.prems(1) [rotated])
    have "parse_members (Suc m) (member_text (k, v) @ CHR ''}'' # rest) = Some ([(k, v)], rest)"
      by (simp only: parse_members_step [OF pv0]) (simp add: skip_ws_def is_ws_def)
    moreover have "commas (map member_text ((k, v) # [])) @ CHR ''}'' # rest = member_text (k, v) @ CHR ''}'' # rest"
      by simp
    ultimately show ?thesis by (simp only: n Nil kv)
  next
    case ws_Cons: (Cons w ws')
    let ?tail = "commas (map member_text ws) @ CHR ''}'' # rest"
    have "length (commas (map member_text (kv # ws)))
            = length (member_text (k, v)) + 1 + length (commas (map member_text ws))"
      using ws_Cons kv by simp
    with Cons.prems(3) n lm
    have len: "length (stringify v) \<le> m" "length (commas (map member_text ws)) < m" by linarith+
    have "delim (CHR '','' # ?tail)" by (simp add: delim_def)
    with len(1) have pv: "parse_value m (stringify v @ CHR '','' # ?tail) = Some (v, CHR '','' # ?tail)"
      using inset by (rule Cons.prems(1) [rotated])
    have pm: "parse_members m ?tail = Some (ws, rest)"
    proof (rule Cons.IH)
      show "ws \<noteq> []" using ws_Cons by simp
      show "length (commas (map member_text ws)) < m" by (rule len(2))
      fix k' v' n' rest'
      assume "(k', v') \<in> set ws" "length (stringify v') \<le> n'" "delim rest'"
      then show "parse_value n' (stringify v' @ rest') = Some (v', rest')"
        using Cons.prems(1) [of k' v' n' rest'] by simp
    qed
    have eq: "commas (map member_text ((k, v) # ws)) @ CHR ''}'' # rest = member_text (k, v) @ CHR '','' # ?tail"
      using ws_Cons by simp
    have "parse_members (Suc m) (member_text (k, v) @ CHR '','' # ?tail) = Some ((k, v) # ws, rest)"
      by (simp only: parse_members_step [OF pv]) (simp add: pm skip_ws_def is_ws_def)
    then show ?thesis by (simp only: n kv eq)
  qed
qed

lemma stringify_JObj: "stringify (JObj ms) = CHR ''{'' # commas (map member_text ms) @ [CHR ''}'']"
proof -
  have "(\<lambda>(k, v). quote k @ CHR '':'' # stringify v) = member_text"
    by (auto simp: member_text_def fun_eq_iff)
  then show ?thesis by simp
qed

lemma commas_start:
  assumes "xs \<noteq> []" "\<And>x. x \<in> set xs \<Longrightarrow> \<exists>c t. x = c # t \<and> P c"
  shows "\<exists>c t. commas xs = c # t \<and> P c"
proof (cases xs)
  case Nil
  with assms show ?thesis by simp
next
  case (Cons x ys)
  with assms(2) [of x] obtain c t where "x = c # t" "P c" by auto
  with Cons show ?thesis by (cases ys) auto
qed

lemma parse_value_stringify:
  "length (stringify v) \<le> n \<Longrightarrow> delim rest \<Longrightarrow> parse_value n (stringify v @ rest) = Some (v, rest)"
proof (induction v arbitrary: n rest)
  case JNull
  then obtain m where "n = Suc m" by (cases n) auto
  then show ?case by (simp add: skip_ws_def is_ws_def literal_def)
next
  case (JBool b)
  then obtain m where "n = Suc m" by (cases n; cases b) auto
  then show ?case by (cases b) (simp_all add: skip_ws_def is_ws_def literal_def)
next
  case (JNum i e)
  then obtain m where n: "n = Suc m" using length_stringify_pos [of "JNum i e"] by (cases n) auto
  obtain c t where ct: "show_int i = c # t" "c = CHR ''-'' \<or> is_digit c"
    using show_int_start by blast
  have "parse_value (Suc m) (c # t @ exponent e @ rest) = parse_number (c # t @ exponent e @ rest)"
    using ct(2) by (rule parse_value_number)
  with n ct(1) parse_number_stringify [OF JNum.prems(2), of i e] show ?case by simp
next
  case (JStr s)
  then obtain m where "n = Suc m" by (cases n) (auto simp: quote_def)
  then show ?case using unquote_quote [of s rest]
    by (simp add: skip_ws_def is_ws_def quote_def)
next
  case (JArr vs)
  then obtain m where n: "n = Suc m" by (cases n) auto
  show ?case
  proof (cases "vs = []")
    case True
    with n show ?thesis by (simp add: skip_ws_def is_ws_def)
  next
    case False
    have "\<exists>c t. commas (map stringify vs) = c # t \<and> value_start c"
      using False stringify_start by (intro commas_start) auto
    then obtain c t where ct: "commas (map stringify vs) = c # t" "value_start c" by blast
    have "length (commas (map stringify vs)) < m" using JArr.prems(1) n by simp
    then have "parse_elems m (commas (map stringify vs) @ CHR '']'' # rest) = Some (vs, rest)"
      using JArr.IH False by (intro parse_elems_commas) auto
    with ct n value_start_simps [OF ct(2)] show ?thesis
      by (simp add: skip_ws_def is_ws_def)
  qed
next
  case (JObj ms)
  then obtain m where n: "n = Suc m" by (cases n) auto
  show ?case
  proof (cases "ms = []")
    case True
    with n show ?thesis by (simp add: skip_ws_def is_ws_def)
  next
    case False
    have "\<exists>c t. commas (map member_text ms) = c # t \<and> c = CHR 0x22"
      using False by (intro commas_start) (auto simp: member_text_def quote_def)
    then obtain t where ct: "commas (map member_text ms) = CHR 0x22 # t" by blast
    have "length (stringify (JObj ms)) \<le> n" by fact
    then have "length (commas (map member_text ms)) < m"
      unfolding stringify_JObj using n by simp
    then have "parse_members m (commas (map member_text ms) @ CHR ''}'' # rest) = Some (ms, rest)"
      using JObj.IH False by (intro parse_members_commas) (auto simp: snds.simps)
    with ct n show ?thesis
      by (simp add: stringify_JObj skip_ws_def is_ws_def del: stringify.simps)
  qed
qed

lemma parse_json_stringify: "parse_json (stringify v) = Some v"
  using parse_value_stringify [of v "length (stringify v)" "[]"]
  by (simp add: parse_json_def delim_def skip_ws_def)

subsection \<open>No raw newline in a payload\<close>

lemma hex_digit_not_nl: "d < 16 \<Longrightarrow> hex_digit d \<noteq> CHR 0x0A"
proof -
  assume "d < 16"
  then have "(of_char (hex_digit d) :: nat) \<noteq> 10"
    by (auto simp: hex_digit_def)
  then show ?thesis by auto
qed

lemma escape_char_no_nl: "CHR 0x0A \<notin> set (escape_char c)"
proof -
  have "(of_char c :: nat) div 16 < 16" "(of_char c :: nat) mod 16 < 16"
    by (simp_all add: div_less_iff_less_mult)
  then show ?thesis
    using hex_digit_not_nl [of "of_char c div 16"] hex_digit_not_nl [of "of_char c mod 16"]
    by (simp add: escape_char_def)
qed

lemma quote_no_nl: "CHR 0x0A \<notin> set (quote s)"
  using escape_char_no_nl by (auto simp: quote_def)

lemma show_int_no_nl: "CHR 0x0A \<notin> set (show_int i)"
proof -
  have "\<not> is_digit (CHR 0x0A)" by (simp add: is_digit_def)
  then have "CHR 0x0A \<notin> set (show_nat n)" for n using show_nat_digits by blast
  then show ?thesis by (simp add: show_int_def)
qed

lemma commas_no_nl:
  "(\<And>x. x \<in> set xs \<Longrightarrow> CHR 0x0A \<notin> set x) \<Longrightarrow> CHR 0x0A \<notin> set (commas xs)"
  by (induction xs rule: commas.induct) auto

lemma stringify_no_nl: "CHR 0x0A \<notin> set (stringify v)"
proof (induction v)
  case (JNum m e)
  show ?case using show_int_no_nl by (simp add: exponent_def)
next
  case (JStr s)
  show ?case using quote_no_nl by simp
next
  case (JArr vs)
  then have "CHR 0x0A \<notin> set (commas (map stringify vs))"
    by (intro commas_no_nl) auto
  then show ?case by simp
next
  case (JObj ms)
  have "CHR 0x0A \<notin> set (member_text kv)" if "kv \<in> set ms" for kv
  proof -
    have "CHR 0x0A \<notin> set (stringify (snd kv))"
      using JObj.IH [of kv "snd kv"] that by (cases kv) (auto simp: snds.simps)
    then show ?thesis using quote_no_nl [of "fst kv"] by (simp add: member_text_def)
  qed
  then have "CHR 0x0A \<notin> set (commas (map member_text ms))"
    by (intro commas_no_nl) auto
  then show ?case unfolding stringify_JObj by simp
qed simp_all

subsection \<open>Lines\<close>

lemma split_lines_line:
  "CHR 0x0A \<notin> set l \<Longrightarrow> split_lines buf (l @ CHR 0x0A # rest)
     = (case split_lines [] rest of (ls, r) \<Rightarrow> ((buf @ l) # ls, r))"
  by (induction l arbitrary: buf) auto


lemma encode_item_line:
  "\<exists>l. encode_item it = l @ [CHR 0x0A] \<and> CHR 0x0A \<notin> set l"
proof (cases it)
  case (TextItem s)
  have "CHR 0x0A \<notin> set (''0:'' @ stringify (JStr s))"
    by (simp add: stringify_no_nl del: stringify.simps)
  moreover have "encode_item it = (''0:'' @ stringify (JStr s)) @ [CHR 0x0A]"
    using TextItem by (simp add: text_line_def)
  ultimately show ?thesis by blast
next
  case (DataItem vs)
  have "CHR 0x0A \<notin> set (''2:'' @ stringify (JArr vs))"
    by (simp add: stringify_no_nl del: stringify.simps)
  moreover have "encode_item it = (''2:'' @ stringify (JArr vs)) @ [CHR 0x0A]"
    using DataItem by (simp add: data_line_def)
  ultimately show ?thesis by blast
qed

lemma split_lines_encode_item:
  "split_lines [] (encode_item it @ rest)
     = (case split_lines [] rest of (ls, r) \<Rightarrow> (butlast (encode_item it) # ls, r))"
proof -
  obtain l where l: "encode_item it = l @ [CHR 0x0A]" "CHR 0x0A \<notin> set l"
    using encode_item_line by blast
  then show ?thesis using split_lines_line [of l "[]" rest] by simp
qed

lemma decode_line_encode_item: "decode_line (butlast (encode_item it)) = Inr it"
proof (cases it)
  case (TextItem s)
  have "butlast (text_line s) = CHR ''0'' # CHR '':'' # stringify (JStr s)"
    by (simp add: text_line_def butlast_append)
  then show ?thesis using TextItem parse_json_stringify [of "JStr s"]
    by (simp add: decode_line_def del: stringify.simps)
next
  case (DataItem vs)
  have "butlast (data_line vs) = CHR ''2'' # CHR '':'' # stringify (JArr vs)"
    by (simp add: data_line_def butlast_append)
  then show ?thesis using DataItem parse_json_stringify [of "JArr vs"]
    by (simp add: decode_line_def del: stringify.simps)
qed

lemma split_lines_encode_stream:
  "split_lines [] (encode_stream items) = (map (\<lambda>it. butlast (encode_item it)) items, [])"
  by (induction items) (simp_all add: encode_stream_def split_lines_encode_item)

lemma decode_lines_encoded:
  "decode_lines (map (\<lambda>it. butlast (encode_item it)) items) = (items, None)"
  by (induction items) (simp_all add: decode_line_encode_item)

lemma decode_encode_stream: "decode_stream (encode_stream items) = (items, None)"
  by (simp add: decode_stream_def split_lines_encode_stream decode_lines_encoded)

subsection \<open>Runs of the multiplexer\<close>

lemma texts_of_append [simp]: "texts_of (xs @ ys) = texts_of xs @ texts_of ys"
  by (induction xs rule: texts_of.induct) simp_all

lemma data_of_append [simp]: "data_of (xs @ ys) = data_of xs @ data_of ys"
  by (induction xs rule: data_of.induct) simp_all

lemma flush_simps [simp]:
  "texts_of (out (flush m)) = texts_of (out m)"
  "data_of (out (flush m)) = data_of (out m) @ pending m"
  "pending (flush m) = []"
  "closed (flush m) = closed m" "text_done (flush m) = text_done m" "ended (flush m) = ended m"
  by (simp_all add: flush_def)

lemma finish_simps [simp]:
  "texts_of (out (finish m)) = texts_of (out m)"
  "data_of (out (finish m)) @ pending (finish m) = data_of (out m) @ pending m"
  "closed (finish m) = closed m" "text_done (finish m) = text_done m"
  by (simp_all add: finish_def flush_def)

lemma mux_run_Nil [simp]: "mux_run [] m = m"
  by (simp add: mux_run_def)

lemma mux_run_Cons [simp]: "mux_run (e # es) m = mux_run es (snd (mux_step e m))"
  by (simp add: mux_run_def)

lemma mux_ok_init: "mux_ok mux_init"
  by (simp add: mux_ok_def mux_init_def)

lemma mux_ok_step: "mux_ok m \<Longrightarrow> mux_ok (snd (mux_step e m))"
  by (cases e) (auto simp: mux_ok_def finish_def flush_def)

lemma mux_ok_run: "mux_ok m \<Longrightarrow> mux_ok (mux_run es m)"
  by (induction es arbitrary: m) (simp_all add: mux_ok_step)

lemma text_done_step: "text_done (snd (mux_step e m)) = (text_done m \<or> e = TextEnd)"
  by (cases e) simp_all

lemma closed_step: "closed (snd (mux_step e m)) = (closed m \<or> e = Close)"
  by (cases e) simp_all

lemma text_done_run: "text_done (mux_run es m) = (text_done m \<or> TextEnd \<in> set es)"
  by (induction es arbitrary: m) (auto simp: text_done_step)

lemma closed_run: "closed (mux_run es m) = (closed m \<or> Close \<in> set es)"
  by (induction es arbitrary: m) (auto simp: closed_step)

lemma texts_step:
  "texts_of (out (snd (mux_step e m)))
     = texts_of (out m) @ (case e of Text s \<Rightarrow> if text_done m then [] else [s] | _ \<Rightarrow> [])"
  by (cases e) simp_all

lemma data_step:
  "data_of (out (snd (mux_step e m))) @ pending (snd (mux_step e m))
     = data_of (out m) @ pending m @ (case e of Append v \<Rightarrow> if closed m then [] else [v] | _ \<Rightarrow> [])"
  by (cases e) simp_all

lemma texts_run_done: "text_done m \<Longrightarrow> texts_of (out (mux_run es m)) = texts_of (out m)"
proof (induction es arbitrary: m)
  case Nil
  show ?case by simp
next
  case (Cons e es)
  have "text_done (snd (mux_step e m))" using Cons.prems by (simp add: text_done_step)
  from Cons.IH [OF this] show ?case using Cons.prems
    by (cases e) (simp_all add: texts_step del: mux_step.simps)
qed

lemma texts_run:
  "\<not> text_done m \<Longrightarrow> texts_of (out (mux_run es m)) = texts_of (out m) @ fragments es"
proof (induction es arbitrary: m)
  case Nil
  show ?case by simp
next
  case (Cons e es)
  show ?case
  proof (cases "e = TextEnd")
    case True
    then have "text_done (snd (mux_step e m))" by (simp add: text_done_step)
    from texts_run_done [OF this] show ?thesis using True
      by (simp add: texts_step del: mux_step.simps)
  next
    case False
    then have "\<not> text_done (snd (mux_step e m))" using Cons.prems by (simp add: text_done_step)
    from Cons.IH [OF this] show ?thesis using False Cons.prems
      by (cases e) (simp_all add: texts_step del: mux_step.simps)
  qed
qed

lemma data_run_closed:
  "closed m \<Longrightarrow> data_of (out (mux_run es m)) @ pending (mux_run es m) = data_of (out m) @ pending m"
proof (induction es arbitrary: m)
  case Nil
  show ?case by simp
next
  case (Cons e es)
  have "closed (snd (mux_step e m))" using Cons.prems by (simp add: closed_step)
  from Cons.IH [OF this] show ?case using Cons.prems
    by (cases e) (simp_all add: data_step del: mux_step.simps)
qed

lemma data_run:
  "\<not> closed m \<Longrightarrow>
     data_of (out (mux_run es m)) @ pending (mux_run es m) = data_of (out m) @ pending m @ appended es"
proof (induction es arbitrary: m)
  case Nil
  show ?case by simp
next
  case (Cons e es)
  show ?case
  proof (cases "e = Close")
    case True
    then have "closed (snd (mux_step e m))" by (simp add: closed_step)
    from data_run_closed [OF this] show ?thesis using True
      by (simp add: data_step del: mux_step.simps)
  next
    case False
    then have "\<not> closed (snd (mux_step e m))" using Cons.prems by (simp add: closed_step)
    from Cons.IH [OF this] show ?thesis using False Cons.prems
      by (cases e) (simp_all add: data_step del: mux_step.simps)
  qed
qed

lemma out_run_no_pending:
  assumes "\<forall>e\<in>set es. \<not> is_Append e" and "pending m = []"
  shows "out (mux_run es m) = out m @ map TextItem (if text_done m then [] else fragments es)"
  using assms
proof (induction es arbitrary: m)
  case Nil
  show ?case by simp
next
  case (Cons e es)
  have na: "\<forall>e\<in>set es. \<not> is_Append e" using Cons.prems(1) by simp
  show ?case
  proof (cases e)
    case (Append v)
    with Cons.prems(1) show ?thesis by simp
  next
    case Close
    have "pending (finish (m\<lparr>closed := True\<rparr>)) = []"
      using Cons.prems(2) by (simp add: finish_def flush_def)
    from Cons.IH [OF na this] show ?thesis
      using Close Cons.prems(2) by (simp add: finish_def flush_def)
  next
    case (Text s)
    show ?thesis
    proof (cases "text_done m")
      case True
      with Cons.IH [OF na Cons.prems(2)] Text show ?thesis by simp
    next
      case False
      let ?m = "(flush m)\<lparr>out := out (flush m) @ [TextItem s]\<rparr>"
      have "pending ?m = []" by simp
      from Cons.IH [OF na this] show ?thesis
        using Text False Cons.prems(2) by (simp add: flush_def)
    qed
  next
    case TextEnd
    have "pending (finish (m\<lparr>text_done := True\<rparr>)) = []"
      using Cons.prems(2) by (simp add: finish_def flush_def)
    from Cons.IH [OF na this] show ?thesis
      using TextEnd Cons.prems(2) by (simp add: finish_def flush_def)
  qed
qed

lemma out_run_text_done:
  assumes "\<forall>e\<in>set es. \<not> is_Append e" and "pending m \<noteq> []"
    and "text_done m" and "\<not> closed m" and "\<not> ended m"
  shows "out (mux_run es m) = out m @ (if Close \<in> set es then [DataItem (pending m)] else [])"
  using assms
proof (induction es arbitrary: m)
  case Nil
  show ?case by simp
next
  case (Cons e es)
  have na: "\<forall>e\<in>set es. \<not> is_Append e" using Cons.prems(1) by simp
  show ?case
  proof (cases e)
    case (Append v)
    with Cons.prems(1) show ?thesis by simp
  next
    case Close
    let ?m = "finish (m\<lparr>closed := True\<rparr>)"
    have m: "?m = m\<lparr>closed := True, out := out m @ [DataItem (pending m)], pending := [],
                      ended := True\<rparr>"
      using Cons.prems by (simp add: finish_def flush_def)
    then have "pending ?m = []" "text_done ?m" using Cons.prems(3) by simp_all
    from out_run_no_pending [OF na this(1)] this(2) show ?thesis
      using Close m by simp
  next
    case (Text s)
    with Cons.IH [OF na Cons.prems(2-5)] Cons.prems(3) show ?thesis by simp
  next
    case TextEnd
    have "finish (m\<lparr>text_done := True\<rparr>) = m"
      using Cons.prems by (simp add: finish_def)
    with Cons.IH [OF na Cons.prems(2-5)] TextEnd show ?thesis by simp
  qed
qed

lemma out_run_pending:
  assumes "\<forall>e\<in>set es. \<not> is_Append e" and "pending m \<noteq> []"
    and "\<not> text_done m" and "\<not> ended m"
  shows "out (mux_run es m) =
           out m @ (if fragments es \<noteq> [] \<or> (TextEnd \<in> set es \<and> (closed m \<or> Close \<in> set es))
                    then DataItem (pending m) # map TextItem (fragments es) else [])"
  using assms
proof (induction es arbitrary: m)
  case Nil
  show ?case by simp
next
  case (Cons e es)
  have na: "\<forall>e\<in>set es. \<not> is_Append e" using Cons.prems(1) by simp
  show ?case
  proof (cases e)
    case (Append v)
    with Cons.prems(1) show ?thesis by simp
  next
    case Close
    let ?m = "m\<lparr>closed := True\<rparr>"
    have f: "finish ?m = ?m" using Cons.prems(3) by (simp add: finish_def)
    have "pending ?m \<noteq> []" "\<not> text_done ?m" "\<not> ended ?m" using Cons.prems by simp_all
    from Cons.IH [OF na this] show ?thesis using Close f by simp
  next
    case (Text s)
    let ?m = "(flush m)\<lparr>out := out (flush m) @ [TextItem s]\<rparr>"
    have p: "pending ?m = []" by simp
    have o: "out ?m = out m @ [DataItem (pending m), TextItem s]"
      using Cons.prems(2) by (simp add: flush_def)
    have "\<not> text_done ?m" using Cons.prems(3) by simp
    with out_run_no_pending [OF na p] o show ?thesis
      using Text Cons.prems(3) by simp
  next
    case TextEnd
    show ?thesis
    proof (cases "closed m")
      case True
      let ?m = "finish (m\<lparr>text_done := True\<rparr>)"
      have m: "?m = m\<lparr>text_done := True, out := out m @ [DataItem (pending m)], pending := [],
                        ended := True\<rparr>"
        using Cons.prems True by (simp add: finish_def flush_def)
      then have "pending ?m = []" "text_done ?m" by simp_all
      from out_run_no_pending [OF na this(1)] this(2) show ?thesis
        using TextEnd m True by simp
    next
      case False
      let ?m = "m\<lparr>text_done := True\<rparr>"
      have f: "finish ?m = ?m" using False by (simp add: finish_def)
      have "pending ?m \<noteq> []" "text_done ?m" "\<not> closed ?m" "\<not> ended ?m"
        using Cons.prems False by simp_all
      from out_run_text_done [OF na this] show ?thesis using TextEnd f False by simp
    qed
  qed
qed

lemma encode_stream_Cons: "encode_stream (it # its) = encode_item it @ encode_stream its"
  by (simp add: encode_stream_def)

lemma encode_stream_texts: "encode_stream (map TextItem T) = concat (map text_line T)"
  by (simp add: encode_stream_def comp_def)

lemma data_line_t1:
  "data_line [JObj [(''t1'', JStr ''v1'')]] = ''2:[{\"t1\":\"v1\"}]\<newline>''"
  by (simp add: data_line_def quote_def escape_char_def)

lemma text_line_empty: "text_line [] = ''0:\"\"\<newline>''"
  by (simp add: text_line_def quote_def)

subsection \<open>Data before text\<close>

text \<open>
  Claim C1. In tagged mode, when the one data event \<open>{t1: "v1"}\<close> is appended before any
  fragment and nothing else is appended, the bytes of the stream are the data line
  \<open>2:[{"t1":"v1"}]\<close> followed by one text line per fragment, in the order of the
  fragments, as soon as a fragment has been emitted or the stream has ended; this holds
  wherever \<open>close()\<close> and the end of the text fall among the events.
\<close>

theorem tagged_data_before_text:
  assumes "\<forall>e\<in>set rest. \<not> is_Append e"
    and "fragments rest \<noteq> [] \<or> (TextEnd \<in> set rest \<and> Close \<in> set rest)"
  shows "wire (mux_run (Append (JObj [(''t1'', JStr ''v1'')]) # rest) mux_init)
           = ''2:[{\"t1\":\"v1\"}]\<newline>'' @ concat (map text_line (fragments rest))"
proof -
  let ?v = "JObj [(''t1'', JStr ''v1'')]"
  let ?m = "mux_init\<lparr>pending := [?v]\<rparr>"
  have s: "snd (mux_step (Append ?v) mux_init) = ?m" by (simp add: mux_init_def)
  have "pending ?m \<noteq> []" "\<not> text_done ?m" "\<not> ended ?m" by (simp_all add: mux_init_def)
  from out_run_pending [OF assms(1) this]
  have "out (mux_run rest ?m) = DataItem [?v] # map TextItem (fragments rest)"
    using assms(2) by (simp add: mux_init_def)
  then have "wire (mux_run (Append ?v # rest) mux_init)
               = data_line [?v] @ concat (map text_line (fragments rest))"
    unfolding wire_def mux_run_Cons s by (simp add: encode_stream_Cons encode_stream_texts)
  then show ?thesis unfolding data_line_t1 .
qed

theorem tagged_data_before_text_witness:
  "wire (mux_run (Append (JObj [(''t1'', JStr ''v1'')])
                   # [Text '' Hello'', Text '','', Text '' world'', Text ''.'', Text '' '',
                      TextEnd, Close]) mux_init)
     = ''2:[{\"t1\":\"v1\"}]\<newline>0:\" Hello\"\<newline>0:\",\"\<newline>0:\" world\"\<newline>0:\".\"\<newline>0:\" \"\<newline>''"
proof -
  let ?rest = "[Text '' Hello'', Text '','', Text '' world'', Text ''.'', Text '' '', TextEnd, Close]"
  have a: "\<forall>e\<in>set ?rest. \<not> is_Append e" by simp
  have b: "fragments ?rest \<noteq> [] \<or> (TextEnd \<in> set ?rest \<and> Close \<in> set ?rest)" by simp
  have "concat (map text_line (fragments ?rest))
          = ''0:\" Hello\"\<newline>0:\",\"\<newline>0:\" world\"\<newline>0:\".\"\<newline>0:\" \"\<newline>''"
    by (simp add: text_line_def quote_def escape_char_def)
  with tagged_data_before_text [OF a b] show ?thesis by simp
qed

subsection \<open>The closing order\<close>

text \<open>
  Claim C3. Whatever the interleaving of the events of the text sequence and of the data
  producer, the stream has signalled its end exactly when the text sequence has ended and
  \<open>close()\<close> has been called, so never before both. When it has, every fragment and
  every appended value is in the output, in order, and the bytes decode to the items
  emitted; in particular when \<open>close()\<close> comes after the last fragment.
\<close>

theorem closing_order:
  "(ended (mux_run es mux_init) \<longleftrightarrow> TextEnd \<in> set es \<and> Close \<in> set es)
   \<and> (ended (mux_run es mux_init) \<longrightarrow>
         texts_of (out (mux_run es mux_init)) = fragments es
       \<and> data_of (out (mux_run es mux_init)) = appended es
       \<and> decode_stream (wire (mux_run es mux_init)) = (out (mux_run es mux_init), None))"
proof -
  let ?m = "mux_run es mux_init"
  have ok: "mux_ok ?m" using mux_ok_init by (rule mux_ok_run)
  have td: "text_done ?m = (TextEnd \<in> set es)"
    by (simp add: text_done_run mux_init_def)
  have cl: "closed ?m = (Close \<in> set es)"
    by (simp add: closed_run mux_init_def)
  have en: "ended ?m = (TextEnd \<in> set es \<and> Close \<in> set es)"
    using ok td cl by (simp add: mux_ok_def)
  have tx: "texts_of (out ?m) = fragments es"
    using texts_run [of mux_init es] by (simp add: mux_init_def)
  have da: "data_of (out ?m) @ pending ?m = appended es"
    using data_run [of mux_init es] by (simp add: mux_init_def)
  have "ended ?m \<Longrightarrow> data_of (out ?m) = appended es"
    using ok da by (simp add: mux_ok_def)
  then show ?thesis using en tx by (simp add: wire_def decode_encode_stream)
qed

theorem closing_order_witness:
  "\<not> ended (mux_run [Append (JNum 1 0), Text ''a'', Close, Text ''b''] mux_init)
   \<and> \<not> ended (mux_run [Append (JNum 1 0), Text ''a'', Text ''b'', TextEnd, Append (JNum 2 0)] mux_init)
   \<and> ended (mux_run [Append (JNum 1 0), Text ''a'', Text ''b'', TextEnd, Append (JNum 2 0), Close] mux_init)
   \<and> out (mux_run [Append (JNum 1 0), Text ''a'', Text ''b'', TextEnd, Append (JNum 2 0), Close] mux_init)
       = [DataItem [JNum 1 0], TextItem ''a'', TextItem ''b'', DataItem [JNum 2 0]]
   \<and> texts_of (out (mux_run [Append (JNum 1 0), Text ''a'', Text ''b'', TextEnd, Append (JNum 2 0), Close] mux_init))
       = [''a'', ''b'']
   \<and> data_of (out (mux_run [Append (JNum 1 0), Text ''a'', Text ''b'', TextEnd, Append (JNum 2 0), Close] mux_init))
       = [JNum 1 0, JNum 2 0]"
proof -
  let ?es = "[Append (JNum 1 0), Text ''a'', Text ''b'', TextEnd, Append (JNum 2 0), Close]"
  have "out (mux_run ?es mux_init) = [DataItem [JNum 1 0], TextItem ''a'', TextItem ''b'', DataItem [JNum 2 0]]"
    by (simp add: mux_init_def flush_def finish_def)
  then show ?thesis
    using closing_order [of "[Append (JNum 1 0), Text ''a'', Close, Text ''b'']"]
      closing_order [of "[Append (JNum 1 0), Text ''a'', Text ''b'', TextEnd, Append (JNum 2 0)]"]
      closing_order [of ?es]
    by simp
qed

subsection \<open>Empty fragments\<close>

text \<open>
  Claim C5. An empty fragment is encoded as the line \<open>0:""\<close>; a stream with that line at
  any position decodes to the same items with the empty fragment at that position; the
  multiplexer emits a text item for every fragment it is given, empty or not, so the
  fragments of the output are the fragments delivered; and in plain mode the fragments,
  the empty ones included, pass through as they are.
\<close>

theorem empty_fragment_preserved:
  "text_line [] = ''0:\"\"\<newline>''
   \<and> decode_stream (encode_stream (xs @ TextItem [] # ys)) = (xs @ TextItem [] # ys, None)
   \<and> texts_of (out (mux_run es mux_init)) = fragments es
   \<and> fragments (Text [] # es) = [] # fragments es
   \<and> map (encode_fragment Tagged) (T @ [] # T') = map text_line T @ ''0:\"\"\<newline>'' # map text_line T'
   \<and> map (encode_fragment Plain) (T @ [] # T') = T @ [] # T'"
proof -
  have "texts_of (out (mux_run es mux_init)) = fragments es"
    using texts_run [of mux_init es] by (simp add: mux_init_def)
  moreover have "encode_fragment Plain = (\<lambda>s. s)" "encode_fragment Tagged = text_line"
    by (simp_all add: encode_fragment_def fun_eq_iff)
  ultimately show ?thesis
    by (simp add: text_line_empty decode_encode_stream)
qed

end
